theory Spec2Isabelle
  imports Main "HOL-Library.Word" "HOL-Library.Monad_Syntax"
begin

unbundle bit_operations_syntax

section \<open>Core A: the allocator (malloc_implementation.c)\<close>

text \<open>
  The allocator works on one contiguous arena of bytes.  The model keeps the arena as a
  byte-addressed memory and the two global variables of the file, \<open>heap_listp\<close> and
  \<open>free_list_root\<close>.  Addresses, \<open>size_t\<close> values and the \<open>int\<close> counters
  are natural numbers; the null pointer is \<open>0\<close>.  A header or footer is the 32-bit
  \<open>unsigned int\<close> of the \<open>GET\<close>/\<open>PUT\<close> macros, stored little-endian in four
  bytes; a free-list link is a 64-bit pointer stored in eight bytes.  Where a claim depends on
  \<open>size_t\<close> wrap-around (the adjusted size in \<open>mm_malloc\<close>, the remainder in
  \<open>place\<close>) the reduction modulo \<open>2 ^ 64\<close> is written out.  Pointer
  subtraction stops at address 0; the block pointers of an arena that starts above address
  16 never get there.

  The contract macros \<open>REQUIRES\<close>, \<open>ENSURES\<close> and the \<open>assert\<close> calls only
  run \<open>mm_checkheap\<close>, which never writes to the heap; the operations are modelled
  without them (the release build), and \<open>mm_checkheap\<close> is modelled on its own.
\<close>

type_synonym addr = nat
type_synonym byte = "8 word"

record heap =
  mem :: "addr \<Rightarrow> byte"
  mem_start :: addr
  mem_brk :: addr
  mem_max :: addr
  heap_listp :: addr
  free_list_root :: addr

abbreviation (input) WSIZE :: nat where "WSIZE \<equiv> 4"
abbreviation (input) DSIZE :: nat where "DSIZE \<equiv> 8"
abbreviation (input) CHUNKSIZE :: nat where "CHUNKSIZE \<equiv> 2048"
abbreviation (input) ALLOCED :: nat where "ALLOCED \<equiv> 1"
abbreviation (input) FREE :: nat where "FREE \<equiv> 0"
abbreviation (input) FURTHESTDOWN :: nat where "FURTHESTDOWN \<equiv> 200"
abbreviation (input) MIN_SIZE :: nat where "MIN_SIZE \<equiv> 24"
abbreviation (input) ALIGN :: nat where "ALIGN \<equiv> 8"
abbreviation (input) FITS :: nat where "FITS \<equiv> 8"

text \<open>The value \<open>(void *)-1\<close> of a 64-bit pointer.\<close>

abbreviation (input) NEG1 :: addr where "NEG1 \<equiv> 18446744073709551615"

subsection \<open>The arena primitives\<close>

text \<open>
  Modelled from the spec: \<open>mem_sbrk\<close>, \<open>mem_heap_lo\<close> and \<open>mem_heap_hi\<close> belong
  to memlib, which is not among the sources.  The spec describes the heap as a contiguous
  region \<open>[lo, hi)\<close> that grows only at its high end through \<open>sbrk(n)\<close>, which
  returns the old end of the region, or the failure sentinel when the arena is exhausted.
\<close>

definition mem_sbrk :: "heap \<Rightarrow> nat \<Rightarrow> heap \<times> addr" where
  "mem_sbrk s incr =
     (if mem_max s < mem_brk s + incr then (s, NEG1)
      else (s\<lparr>mem_brk := mem_brk s + incr\<rparr>, mem_brk s))"

definition mem_heap_lo :: "heap \<Rightarrow> addr" where
  "mem_heap_lo s = mem_start s"

definition mem_heap_hi :: "heap \<Rightarrow> addr" where
  "mem_heap_hi s = mem_brk s"

subsection \<open>The macros\<close>

definition PACK :: "nat \<Rightarrow> nat \<Rightarrow> nat" where
  "PACK size' alloc = size' OR alloc"

definition GET :: "heap \<Rightarrow> addr \<Rightarrow> 32 word" where
  "GET s p =
     ucast (mem s p) OR push_bit 8 (ucast (mem s (p + 1))) OR
     push_bit 16 (ucast (mem s (p + 2))) OR push_bit 24 (ucast (mem s (p + 3)))"

definition PUT :: "heap \<Rightarrow> addr \<Rightarrow> nat \<Rightarrow> heap" where
  "PUT s p val =
     (let w = (of_nat val :: 32 word) in
      s\<lparr>mem := (mem s)
        (p := ucast w, p + 1 := ucast (drop_bit 8 w),
         p + 2 := ucast (drop_bit 16 w), p + 3 := ucast (drop_bit 24 w))\<rparr>)"

definition GET_SIZE :: "heap \<Rightarrow> addr \<Rightarrow> nat" where
  "GET_SIZE s p = unat (GET s p AND NOT 7)"

definition GET_ALLOC :: "heap \<Rightarrow> addr \<Rightarrow> nat" where
  "GET_ALLOC s p = unat (GET s p AND 1)"

definition HDRP :: "addr \<Rightarrow> addr" where
  "HDRP bp = bp - WSIZE"

definition FTRP :: "heap \<Rightarrow> addr \<Rightarrow> addr" where
  "FTRP s bp = bp + GET_SIZE s (HDRP bp) - DSIZE"

definition NEXT_BLKP :: "heap \<Rightarrow> addr \<Rightarrow> addr" where
  "NEXT_BLKP s bp = bp + GET_SIZE s (bp - WSIZE)"

definition PREV_BLKP :: "heap \<Rightarrow> addr \<Rightarrow> addr" where
  "PREV_BLKP s bp = bp - GET_SIZE s (bp - DSIZE)"

text \<open>A pointer stored in the heap: eight bytes, least significant first.\<close>

definition GET_PTR :: "heap \<Rightarrow> addr \<Rightarrow> addr" where
  "GET_PTR s p = unat (GET s p) + 4294967296 * unat (GET s (p + 4))"

definition PUT_PTR :: "heap \<Rightarrow> addr \<Rightarrow> addr \<Rightarrow> heap" where
  "PUT_PTR s p val = PUT (PUT s p (val mod 4294967296)) (p + 4) (val div 4294967296)"

definition GET_NEXT_FREE :: "heap \<Rightarrow> addr \<Rightarrow> addr" where
  "GET_NEXT_FREE s bp = GET_PTR s bp"

definition GET_PREV_FREE :: "heap \<Rightarrow> addr \<Rightarrow> addr" where
  "GET_PREV_FREE s bp = GET_PTR s (bp + DSIZE)"

definition PUT_NEXT_FREE :: "heap \<Rightarrow> addr \<Rightarrow> addr \<Rightarrow> heap" where
  "PUT_NEXT_FREE s bp val = PUT_PTR s bp val"

definition PUT_PREV_FREE :: "heap \<Rightarrow> addr \<Rightarrow> addr \<Rightarrow> heap" where
  "PUT_PREV_FREE s bp val = PUT_PTR s (bp + DSIZE) val"

subsection \<open>The free list\<close>

definition add_to_freelist :: "heap \<Rightarrow> addr \<Rightarrow> heap" where
  "add_to_freelist s bp =
     (if free_list_root s = 0 then
        (let s = s\<lparr>free_list_root := bp\<rparr>;
             s = PUT_PREV_FREE s bp 0;
             s = PUT_NEXT_FREE s bp 0
         in s)
      else
        (let s = PUT_NEXT_FREE s bp (free_list_root s);
             s = PUT_PREV_FREE s bp 0;
             s = PUT_PREV_FREE s (free_list_root s) bp;
             s = s\<lparr>free_list_root := bp\<rparr>
         in s))"

definition remove_from_freelist :: "heap \<Rightarrow> addr \<Rightarrow> heap" where
  "remove_from_freelist s bp =
     (if GET_PREV_FREE s bp = 0 \<and> GET_NEXT_FREE s bp = 0 then
        s\<lparr>free_list_root := 0\<rparr>
      else if GET_PREV_FREE s bp = 0 then
        (let s = s\<lparr>free_list_root := GET_NEXT_FREE s bp\<rparr>;
             s = PUT_PREV_FREE s (free_list_root s) 0
         in s)
      else if GET_NEXT_FREE s bp = 0 then
        PUT_NEXT_FREE s (GET_PREV_FREE s bp) 0
      else
        (let s = PUT_NEXT_FREE s (GET_PREV_FREE s bp) (GET_NEXT_FREE s bp);
             s = PUT_PREV_FREE s (GET_NEXT_FREE s bp) (GET_PREV_FREE s bp);
             s = PUT_PREV_FREE s bp 0;
             s = PUT_NEXT_FREE s bp 0
         in s))"

subsection \<open>Coalescing, extension, placement\<close>

definition coalesce :: "heap \<Rightarrow> addr \<Rightarrow> heap \<times> addr" where
  "coalesce s bp =
     (let prev_block_alloc = GET_ALLOC s (FTRP s (PREV_BLKP s bp));
          next_block_alloc = GET_ALLOC s (HDRP (NEXT_BLKP s bp));
          size' = GET_SIZE s (HDRP bp)
      in
      if prev_block_alloc \<noteq> 0 \<and> next_block_alloc \<noteq> 0 then
        (add_to_freelist s bp, bp)
      else if prev_block_alloc = 0 \<and> next_block_alloc \<noteq> 0 then
        (let s = remove_from_freelist s (PREV_BLKP s bp);
             size_to_the_side = size' + GET_SIZE s (HDRP (PREV_BLKP s bp));
             s = PUT s (HDRP (PREV_BLKP s bp)) (PACK size_to_the_side FREE);
             s = PUT s (FTRP s bp) (PACK size_to_the_side FREE);
             s = add_to_freelist s (PREV_BLKP s bp)
         in (s, PREV_BLKP s bp))
      else if prev_block_alloc \<noteq> 0 \<and> next_block_alloc = 0 then
        (let s = remove_from_freelist s (NEXT_BLKP s bp);
             size_to_the_side = size' + GET_SIZE s (HDRP (NEXT_BLKP s bp));
             s = PUT s (FTRP s (NEXT_BLKP s bp)) (PACK size_to_the_side FREE);
             s = PUT s (HDRP bp) (PACK size_to_the_side FREE);
             s = add_to_freelist s bp
         in (s, bp))
      else
        (let s = remove_from_freelist s (NEXT_BLKP s bp);
             s = remove_from_freelist s (PREV_BLKP s bp);
             size_to_the_side =
               size' + GET_SIZE s (HDRP (PREV_BLKP s bp)) + GET_SIZE s (HDRP (NEXT_BLKP s bp));
             s = PUT s (HDRP (PREV_BLKP s bp)) (PACK size_to_the_side FREE);
             s = PUT s (FTRP s (NEXT_BLKP s bp)) (PACK size_to_the_side FREE);
             s = add_to_freelist s (PREV_BLKP s bp)
         in (s, PREV_BLKP s bp)))"

definition extend_heap :: "heap \<Rightarrow> nat \<Rightarrow> heap \<times> addr" where
  "extend_heap s words =
     (let size' = (if words mod 2 \<noteq> 0 then (words + 1) * WSIZE else words * WSIZE);
          (s, bp) = mem_sbrk s size'
      in
      if bp = NEG1 then (s, 0)
      else
        (let s = PUT s (HDRP bp) (PACK size' 0);
             s = PUT s (FTRP s bp) (PACK size' 0);
             s = PUT s (HDRP (NEXT_BLKP s bp)) (PACK 0 1)
         in coalesce s bp))"

definition place :: "heap \<Rightarrow> addr \<Rightarrow> nat \<Rightarrow> heap" where
  "place s bp asize =
     (let csize = GET_SIZE s (HDRP bp);
          rest = (csize + 18446744073709551616 - asize) mod 18446744073709551616
      in
      if rest \<ge> MIN_SIZE then
        (let s = PUT s (HDRP bp) (PACK asize 1);
             s = PUT s (FTRP s bp) (PACK asize 1);
             s = remove_from_freelist s bp;
             bp = NEXT_BLKP s bp;
             s = PUT s (HDRP bp) (PACK rest 0);
             s = PUT s (FTRP s bp) (PACK rest 0);
             s = add_to_freelist s bp
         in s)
      else
        (let s = PUT s (HDRP bp) (PACK csize 1);
             s = PUT s (FTRP s bp) (PACK csize 1);
             s = remove_from_freelist s bp
         in s))"

subsection \<open>Initialisation\<close>

definition mm_init :: "heap \<Rightarrow> heap \<times> int" where
  "mm_init s =
     (let (s, p) = mem_sbrk s (4 * WSIZE);
          s = s\<lparr>heap_listp := p\<rparr>
      in
      if p = NEG1 then (s, - 1)
      else
        (let s = PUT s (heap_listp s) 0;
             s = PUT s (heap_listp s + 1 * WSIZE) (PACK DSIZE 1);
             s = PUT s (heap_listp s + 2 * WSIZE) (PACK DSIZE 1);
             s = PUT s (heap_listp s + 3 * WSIZE) (PACK 0 1);
             s = s\<lparr>heap_listp := heap_listp s + 2 * WSIZE\<rparr>;
             s = s\<lparr>free_list_root := 0\<rparr>;
             (s, r) = extend_heap s (CHUNKSIZE div WSIZE)
         in if r = 0 then (s, - 1) else (s, 0)))"

subsection \<open>Placement policy\<close>

text \<open>
  The \<open>for\<close> loop of \<open>find_fit\<close>.  It follows the \<open>next\<close> links stored in the
  heap, so it need not return on a cyclic list: the result \<open>None\<close> stands for a loop
  that never ends.  The C variable \<open>best\<close> is read only after the first fit has set it;
  its initial value is immaterial and is \<open>0\<close> here.
\<close>

partial_function (option) find_fit_loop ::
  "heap \<Rightarrow> nat \<Rightarrow> addr \<Rightarrow> nat \<Rightarrow> nat \<Rightarrow> bool \<Rightarrow> nat \<Rightarrow> addr \<Rightarrow> addr option"
where
  "find_fit_loop s asize block count scount start_counting best bp =
     (if block \<noteq> 0 \<and> count < FITS \<and> scount < FURTHESTDOWN then
        (let blocksize = GET_SIZE s (HDRP block);
             scount = (if start_counting then scount + 1 else scount)
         in
         if asize \<le> blocksize then
           (let count = count + 1;
                start_counting = (if count = 1 then True else start_counting);
                best1 = (if count = 1 then blocksize else best);
                bp1 = (if count = 1 then block else bp);
                best2 = (if blocksize < best1 then blocksize else best1);
                bp2 = (if blocksize < best1 then block else bp1)
            in find_fit_loop s asize (GET_NEXT_FREE s block) count scount start_counting best2 bp2)
         else find_fit_loop s asize (GET_NEXT_FREE s block) count scount start_counting best bp)
      else Some bp)"

definition find_fit :: "heap \<Rightarrow> nat \<Rightarrow> addr option" where
  "find_fit s asize = find_fit_loop s asize (free_list_root s) 0 0 False 0 0"

subsection \<open>The public operations\<close>

text \<open>
  Lines 146 to 157 of \<open>mm_malloc\<close>: search the free list for a block of the adjusted
  size, extend the heap when there is none, and place the block.
\<close>

definition malloc_search_place :: "heap \<Rightarrow> nat \<Rightarrow> (heap \<times> addr) option" where
  "malloc_search_place s asize =
     (case find_fit s asize of
        None \<Rightarrow> None
      | Some bp \<Rightarrow>
          if bp \<noteq> 0 then Some (place s bp asize, bp)
          else
            (let extendsize = (if asize > CHUNKSIZE then asize else CHUNKSIZE);
                 (s, bp) = extend_heap s (extendsize div WSIZE)
             in if bp = 0 then Some (s, 0) else Some (place s bp asize, bp)))"

text \<open>
  Lines 141 to 145 of \<open>mm_malloc\<close>: the adjusted block size \<open>asize\<close>.  The sum
  is a \<open>size_t\<close> and wraps at \<open>2 ^ 64\<close>.
\<close>

definition adjusted_size :: "nat \<Rightarrow> nat" where
  "adjusted_size size' =
     (if size' \<le> 2 * DSIZE then 3 * DSIZE
      else (2 * DSIZE) *
           (((size' + 2 * DSIZE + (2 * DSIZE - 1)) mod 18446744073709551616) div (2 * DSIZE)))"

definition mm_malloc :: "heap \<Rightarrow> nat \<Rightarrow> (heap \<times> addr) option" where
  "mm_malloc s size' =
     (let s = (if heap_listp s = 0 then fst (mm_init s) else s) in
      if size' = 0 then Some (s, 0)
      else
        (let asize = adjusted_size size'
         in malloc_search_place s asize))"

definition mm_free :: "heap \<Rightarrow> addr \<Rightarrow> heap" where
  "mm_free s bp =
     (if bp = 0 then s
      else
        (let size' = GET_SIZE s (HDRP bp);
             s = (if heap_listp s = 0 then fst (mm_init s) else s);
             s = PUT s (HDRP bp) (PACK size' 0);
             s = PUT s (FTRP s bp) (PACK size' 0)
         in fst (coalesce s bp)))"

text \<open>
  \<open>memcpy dst src n\<close> of the C library: the \<open>n\<close> bytes at \<open>src\<close> are
  copied to \<open>dst\<close>.
\<close>

definition memcpy :: "heap \<Rightarrow> addr \<Rightarrow> addr \<Rightarrow> nat \<Rightarrow> heap" where
  "memcpy s dst src n =
     s\<lparr>mem := (\<lambda>a. if dst \<le> a \<and> a < dst + n then mem s (src + (a - dst)) else mem s a)\<rparr>"

text \<open>
  \<open>realloc_copy_size\<close> is the number of bytes \<open>mm_realloc\<close> hands to
  \<open>memcpy\<close> (lines 351 and 352).
\<close>

definition realloc_copy_size :: "heap \<Rightarrow> addr \<Rightarrow> nat \<Rightarrow> nat" where
  "realloc_copy_size s ptr size' =
     (let oldsize = GET_SIZE s (HDRP ptr) in if size' < oldsize then size' else oldsize)"

definition mm_realloc :: "heap \<Rightarrow> addr \<Rightarrow> nat \<Rightarrow> (heap \<times> addr) option" where
  "mm_realloc s ptr size' =
     (if size' = 0 then Some (mm_free s ptr, 0)
      else if ptr = 0 then mm_malloc s size'
      else
        (case mm_malloc s size' of
           None \<Rightarrow> None
         | Some (s, newptr) \<Rightarrow>
             if newptr = 0 then Some (s, 0)
             else
               (let oldsize = realloc_copy_size s ptr size';
                    s = memcpy s newptr ptr oldsize;
                    s = mm_free s ptr
                in Some (s, newptr))))"

subsection \<open>The heap checker\<close>

text \<open>
  Each of the two loops of \<open>mm_checkheap\<close> either leaves the function with
  \<open>return 0\<close> or runs to its end with its counter.  Both follow pointers read from
  the heap, so \<open>None\<close> again stands for a loop that never ends.
\<close>

datatype loop_result = Returned int | Finished int

partial_function (option) checkheap_freelist :: "heap \<Rightarrow> addr \<Rightarrow> int \<Rightarrow> loop_result option"
where
  "checkheap_freelist s block i =
     (if block \<noteq> 0 then
        (if \<not> (mem_heap_lo s < block \<and> block < mem_heap_hi s) then Some (Returned 0)
         else if \<not> (GET_SIZE s (HDRP block) mod ALIGN = 0) then Some (Returned 0)
         else if GET_NEXT_FREE s block \<noteq> 0 \<and>
                 \<not> (GET_PREV_FREE s block = 0 \<or>
                    GET_PREV_FREE s (GET_NEXT_FREE s block) = block) then Some (Returned 0)
         else if NEXT_BLKP s block \<noteq> 0 \<and>
                 \<not> (GET_ALLOC s (HDRP block) \<noteq> GET_ALLOC s (HDRP (NEXT_BLKP s block)))
              then Some (Returned 0)
         else if \<not> (GET_SIZE s (HDRP block) \<ge> MIN_SIZE) then Some (Returned 0)
         else if \<not> (GET_SIZE s (HDRP block) = GET_SIZE s (FTRP s block)) then Some (Returned 0)
         else if \<not> (GET_ALLOC s (HDRP block) = GET_ALLOC s (FTRP s block)) then Some (Returned 0)
         else checkheap_freelist s (GET_NEXT_FREE s block) (i + 1))
      else Some (Finished i))"

partial_function (option) checkheap_walk :: "heap \<Rightarrow> addr \<Rightarrow> int \<Rightarrow> loop_result option"
where
  "checkheap_walk s block j =
     (if block \<noteq> 0 then
        (if \<not> (GET_SIZE s (HDRP block) mod 8 = 0) then Some (Returned 0)
         else checkheap_walk s (NEXT_BLKP s block)
                (if GET_ALLOC s (HDRP block) = FREE then j + 1 else j))
      else Some (Finished j))"

definition mm_checkheap :: "heap \<Rightarrow> int option" where
  "mm_checkheap s =
     (case checkheap_freelist s (free_list_root s) 0 of
        None \<Rightarrow> None
      | Some (Returned r) \<Rightarrow> Some r
      | Some (Finished i) \<Rightarrow>
          (case checkheap_walk s (heap_listp s) 0 of
             None \<Rightarrow> None
           | Some (Returned r) \<Rightarrow> Some r
           | Some (Finished j) \<Rightarrow> if \<not> (i = j) then Some 0 else Some 1))"

text \<open>An arena of \<open>n\<close> zeroed bytes at address \<open>lo\<close>, before \<open>mm_init\<close>.\<close>

definition fresh_heap :: "addr \<Rightarrow> nat \<Rightarrow> heap" where
  "fresh_heap lo n =
     \<lparr>mem = (\<lambda>_. 0), mem_start = lo, mem_brk = lo, mem_max = lo + n,
      heap_listp = 0, free_list_root = 0\<rparr>"

section \<open>Core B: the proxy cache (proxy.c, cache.h)\<close>

text \<open>
  The cache is a doubly linked list of \<open>struct Cache\<close> objects behind a sentinel.  The
  objects live in a store that maps an address to the object allocated there; \<open>Malloc\<close>
  hands out the next unused address and \<open>free\<close> removes the object.  An operation
  that dereferences a null or dangling pointer has no result (\<open>None\<close>), as has a loop
  that never ends.  The \<open>url\<close> and \<open>response\<close> buffers are owned by their
  entry and are kept as values in it.

  The semaphores only order concurrent threads; one call is modelled on its own, with the
  counter \<open>readers_count\<close> it maintains.  The clock \<open>time(NULL)\<close> is the
  argument \<open>now\<close> of each operation that reads it.
\<close>

abbreviation (input) MAX_CACHE_SIZE :: int where "MAX_CACHE_SIZE \<equiv> 1049000"
abbreviation (input) MAX_OBJECT_SIZE :: int where "MAX_OBJECT_SIZE \<equiv> 102400"

record Cache =
  next' :: addr
  prev' :: addr
  url :: "string option"
  response :: "byte list option"
  last_access :: int
  response_size :: int

record cache_state =
  objs :: "addr \<Rightarrow> Cache option"
  next_alloc :: addr
  remaining_cache_size :: int
  readers_count :: int

text \<open>\<open>Malloc(sizeof(struct Cache))\<close>: a new object whose fields are not yet set.\<close>

definition blank :: Cache where
  "blank = \<lparr>next' = 0, prev' = 0, url = None, response = None, last_access = 0,
            response_size = 0\<rparr>"

definition Malloc :: "cache_state \<Rightarrow> addr \<times> cache_state" where
  "Malloc s =
     (next_alloc s,
      s\<lparr>objs := (objs s)(next_alloc s \<mapsto> blank), next_alloc := next_alloc s + 1\<rparr>)"

text \<open>The assignment \<open>p->field = v\<close>, with \<open>f\<close> the change of the field.\<close>

definition assign :: "cache_state \<Rightarrow> addr \<Rightarrow> (Cache \<Rightarrow> Cache) \<Rightarrow> cache_state option" where
  "assign s p f =
     (case objs s p of
        None \<Rightarrow> None
      | Some e \<Rightarrow> Some (s\<lparr>objs := (objs s)(p \<mapsto> f e)\<rparr>))"

definition init_cache :: "cache_state \<Rightarrow> addr \<Rightarrow> cache_state option" where
  "init_cache s c =
     do {
       s \<leftarrow> assign s c (\<lambda>e. e\<lparr>last_access := 0\<rparr>);
       s \<leftarrow> assign s c (\<lambda>e. e\<lparr>url := None\<rparr>);
       s \<leftarrow> assign s c (\<lambda>e. e\<lparr>next' := 0\<rparr>);
       s \<leftarrow> assign s c (\<lambda>e. e\<lparr>prev' := 0\<rparr>);
       s \<leftarrow> assign s c (\<lambda>e. e\<lparr>response := None\<rparr>);
       assign s c (\<lambda>e. e\<lparr>response_size := 0\<rparr>)
     }"

text \<open>
  The state in which \<open>main\<close> starts serving: the sentinel allocated and initialised,
  \<open>remaining_cache_size\<close> at \<open>MAX_CACHE_SIZE\<close>, no reader.  The sentinel is at
  address \<open>1\<close>.
\<close>

definition empty_cache :: cache_state where
  "empty_cache =
     (let (c, s) = Malloc \<lparr>objs = (\<lambda>_. None), next_alloc = 1,
                           remaining_cache_size = MAX_CACHE_SIZE, readers_count = 0\<rparr>
      in the (init_cache s c))"

subsection \<open>Lookup\<close>

partial_function (option) search_cache_loop ::
  "cache_state \<Rightarrow> string \<Rightarrow> int \<Rightarrow> addr \<Rightarrow> (cache_state \<times> addr) option"
where
  "search_cache_loop s curl now c =
     (if c \<noteq> 0 then
        do {
          e \<leftarrow> objs s c;
          u \<leftarrow> url e;
          if curl = u then
            do {
              let cache_hit = c;
              s \<leftarrow> assign s cache_hit (\<lambda>e. e\<lparr>last_access := now\<rparr>);
              let s = s\<lparr>readers_count := readers_count s - 1\<rparr>;
              Some (s, cache_hit)
            }
          else
            do {
              s \<leftarrow> assign s c (\<lambda>e. e\<lparr>last_access := now\<rparr>);
              e \<leftarrow> objs s c;
              search_cache_loop s curl now (next' e)
            }
        }
      else Some (s\<lparr>readers_count := readers_count s - 1\<rparr>, 0))"

definition search_cache :: "cache_state \<Rightarrow> addr \<Rightarrow> string \<Rightarrow> int \<Rightarrow> (cache_state \<times> addr) option"
where
  "search_cache s c curl now =
     (let (cache_hit, s) = Malloc s;
          cache_hit = (0::addr);
          s = s\<lparr>readers_count := readers_count s + 1\<rparr>
      in
      do {
        e \<leftarrow> objs s c;
        search_cache_loop s curl now (next' e)
      })"

subsection \<open>Insertion and eviction\<close>

partial_function (option) find_LRU_loop ::
  "cache_state \<Rightarrow> int \<Rightarrow> addr \<Rightarrow> addr \<Rightarrow> addr option"
where
  "find_LRU_loop s t temp c =
     (if c \<noteq> 0 then
        do {
          te \<leftarrow> objs s temp;
          ce \<leftarrow> objs s c;
          if last_access te < t then find_LRU_loop s (last_access ce) c (next' ce)
          else find_LRU_loop s t temp (next' ce)
        }
      else Some temp)"

definition find_LRU :: "cache_state \<Rightarrow> addr \<Rightarrow> int \<Rightarrow> addr option" where
  "find_LRU s c now =
     do {
       let t = now;
       let temp = c;
       e \<leftarrow> objs s c;
       find_LRU_loop s t temp (next' e)
     }"

definition add_cache_entry :: "cache_state \<Rightarrow> addr \<Rightarrow> addr \<Rightarrow> cache_state option" where
  "add_cache_entry s c new_block =
     do {
       ce \<leftarrow> objs s c;
       if next' ce = 0 then
         do {
           s \<leftarrow> assign s c (\<lambda>e. e\<lparr>next' := new_block\<rparr>);
           s \<leftarrow> assign s new_block (\<lambda>e. e\<lparr>next' := 0\<rparr>);
           assign s new_block (\<lambda>e. e\<lparr>prev' := c\<rparr>)
         }
       else
         do {
           s \<leftarrow> assign s new_block (\<lambda>e. e\<lparr>next' := next' ce\<rparr>);
           s \<leftarrow> assign s new_block (\<lambda>e. e\<lparr>prev' := c\<rparr>);
           s \<leftarrow> assign s c (\<lambda>e. e\<lparr>next' := new_block\<rparr>);
           nb \<leftarrow> objs s new_block;
           assign s (next' nb) (\<lambda>e. e\<lparr>prev' := new_block\<rparr>)
         }
     }"

definition free_cache_entry :: "cache_state \<Rightarrow> addr \<Rightarrow> cache_state option" where
  "free_cache_entry s c =
     (case objs s c of
        None \<Rightarrow> None
      | Some e \<Rightarrow> Some (s\<lparr>objs := (objs s)(c := None)\<rparr>))"

definition delete_cache_entry :: "cache_state \<Rightarrow> addr \<Rightarrow> cache_state option" where
  "delete_cache_entry s LRU =
     do {
       l \<leftarrow> objs s LRU;
       if next' l = 0 then
         do {
           s \<leftarrow> assign s (prev' l) (\<lambda>e. e\<lparr>next' := 0\<rparr>);
           s \<leftarrow> assign s LRU (\<lambda>e. e\<lparr>prev' := 0\<rparr>);
           free_cache_entry s LRU
         }
       else
         do {
           s \<leftarrow> assign s (next' l) (\<lambda>e. e\<lparr>prev' := prev' l\<rparr>);
           l \<leftarrow> objs s LRU;
           s \<leftarrow> assign s (prev' l) (\<lambda>e. e\<lparr>next' := next' l\<rparr>);
           s \<leftarrow> assign s LRU (\<lambda>e. e\<lparr>next' := 0\<rparr>);
           s \<leftarrow> assign s LRU (\<lambda>e. e\<lparr>prev' := 0\<rparr>);
           free_cache_entry s LRU
         }
     }"

text \<open>The \<open>while\<close> loop of the eviction branch of \<open>write_to_cache\<close>.\<close>

partial_function (option) evict_loop ::
  "cache_state \<Rightarrow> addr \<Rightarrow> int \<Rightarrow> int \<Rightarrow> addr \<Rightarrow> (cache_state \<times> addr) option"
where
  "evict_loop s c obj_size now LRU =
     do {
       l \<leftarrow> objs s LRU;
       if response_size l + remaining_cache_size s < obj_size then
         do {
           let s = s\<lparr>remaining_cache_size := remaining_cache_size s + response_size l\<rparr>;
           s \<leftarrow> delete_cache_entry s LRU;
           LRU \<leftarrow> find_LRU s c now;
           evict_loop s c obj_size now LRU
         }
       else Some (s, LRU)
     }"

definition write_to_cache ::
  "cache_state \<Rightarrow> addr \<Rightarrow> string \<Rightarrow> int \<Rightarrow> byte list \<Rightarrow> int \<Rightarrow> cache_state option"
where
  "write_to_cache s c c_url obj_size response' now =
     (let new_url = c_url;
          new_response = take (nat obj_size) response'
      in
      if remaining_cache_size s \<ge> obj_size then
        (let (new_block, s) = Malloc s in
         do {
           s \<leftarrow> assign s new_block (\<lambda>e. e\<lparr>response_size := obj_size\<rparr>);
           s \<leftarrow> assign s new_block (\<lambda>e. e\<lparr>url := Some new_url\<rparr>);
           s \<leftarrow> assign s new_block (\<lambda>e. e\<lparr>response := Some new_response\<rparr>);
           s \<leftarrow> assign s new_block (\<lambda>e. e\<lparr>last_access := now\<rparr>);
           let s = s\<lparr>remaining_cache_size := remaining_cache_size s - obj_size\<rparr>;
           add_cache_entry s c new_block
         })
      else
        do {
          LRU \<leftarrow> find_LRU s c now;
          (s, LRU) \<leftarrow> evict_loop s c obj_size now LRU;
          l \<leftarrow> objs s LRU;
          let s = s\<lparr>remaining_cache_size :=
                     remaining_cache_size s + (response_size l - obj_size)\<rparr>;
          s \<leftarrow> assign s LRU (\<lambda>e. e\<lparr>url := Some new_url\<rparr>);
          s \<leftarrow> assign s LRU (\<lambda>e. e\<lparr>response := Some new_response\<rparr>);
          s \<leftarrow> assign s LRU (\<lambda>e. e\<lparr>response_size := obj_size\<rparr>);
          assign s LRU (\<lambda>e. e\<lparr>last_access := now\<rparr>)
        })"

subsection \<open>Streaming a response (handle_request, lines 302 to 320)\<close>

text \<open>
  \<open>chunks\<close> are the blocks that the successive calls of \<open>Rio_readn\<close> deliver, each
  of at most \<open>MAXLINE\<close> bytes; the loop ends at the first call that delivers nothing.
  \<open>response_buf\<close> is the zeroed buffer of \<open>MAX_OBJECT_SIZE\<close> bytes, and
  \<open>memcpy(response_buf + sum, response, n)\<close> overwrites \<open>n\<close> of its bytes from
  offset \<open>sum\<close>.  Writing the block to the client does not touch the cache and is left
  out.
\<close>

fun stream_response :: "byte list list \<Rightarrow> int \<Rightarrow> int \<Rightarrow> byte list \<Rightarrow> int \<times> int \<times> byte list" where
  "stream_response [] response_buf_left sum_bytes response_buf =
     (response_buf_left, sum_bytes, response_buf)"
| "stream_response (response' # rest) response_buf_left sum_bytes response_buf =
     (let n = int (length response') in
      if n > 0 then
        (let (response_buf, sum_bytes) =
               (if response_buf_left - n > 0 then
                  (take (nat sum_bytes) response_buf @ response' @
                     drop (nat sum_bytes + nat n) response_buf,
                   sum_bytes + n)
                else (response_buf, sum_bytes))
         in stream_response rest (response_buf_left - n) sum_bytes response_buf)
      else (response_buf_left, sum_bytes, response_buf))"

definition handle_response ::
  "cache_state \<Rightarrow> addr \<Rightarrow> string \<Rightarrow> byte list list \<Rightarrow> int \<Rightarrow> cache_state option"
where
  "handle_response s c url' chunks now =
     (let (response_buf_left, sum_bytes, response_buf) =
            stream_response chunks MAX_OBJECT_SIZE 0 (replicate (nat MAX_OBJECT_SIZE) 0)
      in
      if response_buf_left \<ge> 0 then write_to_cache s c url' sum_bytes response_buf now
      else Some s)"

section \<open>Notions of the specification\<close>

subsection \<open>Allocator\<close>

text \<open>
  \<open>round_up n m\<close> is \<open>n\<close> rounded up to a multiple of \<open>m\<close>, as the
  specification uses it for the adjusted block size.
\<close>

definition round_up :: "nat \<Rightarrow> nat \<Rightarrow> nat" where
  "round_up n m = ((n + m - 1) div m) * m"

text \<open>
  The heap that a full initialisation leaves when the arena started at \<open>b\<close>: the
  prologue block of size 8 (header and footer, allocated), one free block of
  \<open>CHUNKSIZE\<close> bytes with equal header and footer, the epilogue header of size 0
  (allocated) at the end of the arena, and a free list that holds exactly the free block.
\<close>

definition initial_heap :: "addr \<Rightarrow> heap \<Rightarrow> bool" where
  "initial_heap b s =
     (heap_listp s = b + 8 \<and> mem_brk s = b + 16 + CHUNKSIZE \<and>
      GET_SIZE s (b + 4) = 8 \<and> GET_ALLOC s (b + 4) = 1 \<and>
      GET_SIZE s (b + 8) = 8 \<and> GET_ALLOC s (b + 8) = 1 \<and>
      GET_SIZE s (HDRP (b + 16)) = CHUNKSIZE \<and> GET_ALLOC s (HDRP (b + 16)) = 0 \<and>
      GET_SIZE s (FTRP s (b + 16)) = CHUNKSIZE \<and> GET_ALLOC s (FTRP s (b + 16)) = 0 \<and>
      GET_SIZE s (HDRP (NEXT_BLKP s (b + 16))) = 0 \<and>
      GET_ALLOC s (HDRP (NEXT_BLKP s (b + 16))) = 1 \<and>
      NEXT_BLKP s (b + 16) = mem_brk s \<and>
      free_list_root s = b + 16 \<and>
      GET_NEXT_FREE s (b + 16) = 0 \<and> GET_PREV_FREE s (b + 16) = 0)"

text \<open>
  The free list as a list: \<open>freelist s a as\<close> holds when following the \<open>next\<close>
  links from \<open>a\<close> visits exactly the blocks \<open>as\<close> and then reaches the null
  pointer.  \<open>blocks_of\<close> pairs each block with the size in its header.
\<close>

fun freelist :: "heap \<Rightarrow> addr \<Rightarrow> addr list \<Rightarrow> bool" where
  "freelist s a [] = (a = 0)"
| "freelist s a (b # bs) = (a \<noteq> 0 \<and> a = b \<and> freelist s (GET_NEXT_FREE s b) bs)"

definition blocks_of :: "heap \<Rightarrow> addr list \<Rightarrow> (addr \<times> nat) list" where
  "blocks_of s as = map (\<lambda>a. (a, GET_SIZE s (HDRP a))) as"

text \<open>
  The placement policy in the words of the specification, on a list of blocks
  \<open>(address, size)\<close>.  A candidate is a block of size at least \<open>asize\<close>.
  \<open>upto_fits n asize bs\<close> is the shortest prefix of \<open>bs\<close> that holds \<open>n\<close>
  candidates (all of \<open>bs\<close> when it has fewer).  The blocks \<open>examined\<close> are those
  before the first candidate, the first candidate, and of the at most 200 blocks after it
  those up to the eighth candidate.  \<open>first_smallest\<close> is the first block of a list that
  no block of the list undercuts in size: the smallest, the first encountered among equals.
  \<open>best_fit\<close> is the address of the first smallest candidate examined, or the null
  pointer when no candidate was examined.
\<close>

fun upto_fits :: "nat \<Rightarrow> nat \<Rightarrow> (addr \<times> nat) list \<Rightarrow> (addr \<times> nat) list" where
  "upto_fits 0 asize bs = []"
| "upto_fits (Suc n) asize [] = []"
| "upto_fits (Suc n) asize (b # bs) =
     b # upto_fits (if asize \<le> snd b then n else Suc n) asize bs"

definition examined :: "nat \<Rightarrow> (addr \<times> nat) list \<Rightarrow> (addr \<times> nat) list" where
  "examined asize bs =
     (case dropWhile (\<lambda>b. snd b < asize) bs of
        [] \<Rightarrow> bs
      | c # rest \<Rightarrow>
          takeWhile (\<lambda>b. snd b < asize) bs @
          upto_fits FITS asize (c # take FURTHESTDOWN rest))"

definition first_smallest :: "(addr \<times> nat) list \<Rightarrow> addr \<times> nat" where
  "first_smallest cs = hd (filter (\<lambda>c. \<forall>d\<in>set cs. snd c \<le> snd d) cs)"

definition best_fit :: "nat \<Rightarrow> (addr \<times> nat) list \<Rightarrow> addr" where
  "best_fit asize bs =
     (let candidates = filter (\<lambda>b. asize \<le> snd b) (examined asize bs)
      in if candidates = [] then 0 else fst (first_smallest candidates))"

text \<open>
  The loop of \<open>find_fit\<close> once more, run on the list of the blocks that the
  \<open>next\<close> links visit instead of on the heap.  It links the loop to \<open>best_fit\<close>.
\<close>

fun scan :: "nat \<Rightarrow> (addr \<times> nat) list \<Rightarrow> nat \<Rightarrow> nat \<Rightarrow> bool \<Rightarrow> nat \<Rightarrow> addr \<Rightarrow> addr" where
  "scan asize [] count scount start_counting best bp = bp"
| "scan asize (b # bs) count scount start_counting best bp =
     (if count < FITS \<and> scount < FURTHESTDOWN then
        (let blocksize = snd b;
             scount = (if start_counting then scount + 1 else scount)
         in
         if asize \<le> blocksize then
           (let count = count + 1;
                start_counting = (if count = 1 then True else start_counting);
                best1 = (if count = 1 then blocksize else best);
                bp1 = (if count = 1 then fst b else bp);
                best2 = (if blocksize < best1 then blocksize else best1);
                bp2 = (if blocksize < best1 then fst b else bp1)
            in scan asize bs count scount start_counting best2 bp2)
         else scan asize bs count scount start_counting best bp)
      else bp)"

text \<open>
  A heap with two free blocks, built by the allocator itself: two requests of 24 bytes,
  the first block freed again, then a request of 100 bytes.
\<close>

definition fit_example :: heap where
  "fit_example =
     (let (s, p1) = the (mm_malloc (fresh_heap 4096 100000) 24);
          (s, p2) = the (mm_malloc s 24);
          s = mm_free s p1;
          (s, p3) = the (mm_malloc s 100)
      in s)"

subsection \<open>Cache\<close>

text \<open>
  The live entries of a cache are the objects that the \<open>next\<close> links visit from the
  sentinel's successor to the null pointer.  \<open>dll s p a xs\<close> holds when they are
  \<open>xs\<close>, starting at \<open>a\<close>, each allocated, and each \<open>prev\<close> link points to
  the object before (\<open>p\<close> for the first).  \<open>sum_sizes\<close> is the sum of
  \<open>response_size\<close> over a list of entries.
\<close>

fun dll :: "cache_state \<Rightarrow> addr \<Rightarrow> addr \<Rightarrow> addr list \<Rightarrow> bool" where
  "dll s p a [] = (a = 0)"
| "dll s p a (x # xs) =
     (a \<noteq> 0 \<and> a = x \<and>
      (case objs s x of
         None \<Rightarrow> False
       | Some e \<Rightarrow> prev' e = p \<and> dll s x (next' e) xs))"

definition size_at :: "cache_state \<Rightarrow> addr \<Rightarrow> int" where
  "size_at s x = (case objs s x of None \<Rightarrow> 0 | Some e \<Rightarrow> response_size e)"

definition has_url :: "cache_state \<Rightarrow> addr \<Rightarrow> bool" where
  "has_url s x = (case objs s x of None \<Rightarrow> False | Some e \<Rightarrow> url e \<noteq> None)"

definition sum_sizes :: "cache_state \<Rightarrow> addr list \<Rightarrow> int" where
  "sum_sizes s xs = sum_list (map (size_at s) xs)"

text \<open>
  The invariant of the cache with sentinel \<open>c\<close> and live entries \<open>xs\<close>: the
  sentinel and the entries are distinct objects allocated earlier, the sentinel keeps the
  time stamp 0 that \<open>init_cache\<close> gave it, the list is linked in both directions,
  every entry has a \<open>url\<close> and a size that is not negative, and the accounting
  equation of the specification holds.
\<close>

definition cache_inv :: "cache_state \<Rightarrow> addr \<Rightarrow> addr list \<Rightarrow> bool" where
  "cache_inv s c xs =
     (c \<noteq> 0 \<and> c < next_alloc s \<and> (\<forall>x\<in>set xs. x < next_alloc s) \<and>
      c \<notin> set xs \<and> distinct xs \<and>
      (case objs s c of
         None \<Rightarrow> False
       | Some h \<Rightarrow> last_access h = 0 \<and> dll s c (next' h) xs) \<and>
      (\<forall>x\<in>set xs. has_url s x) \<and>
      (\<forall>x\<in>set xs. 0 \<le> size_at s x) \<and>
      sum_sizes s xs + remaining_cache_size s = MAX_CACHE_SIZE)"

text \<open>
  \<open>stamps_only A s s'\<close>: the state \<open>s'\<close> differs from \<open>s\<close> at most in
  the time stamps of the objects at the addresses \<open>A\<close> and in \<open>readers_count\<close>.
\<close>

definition stamps_only :: "addr set \<Rightarrow> cache_state \<Rightarrow> cache_state \<Rightarrow> bool" where
  "stamps_only A s s' =
     (next_alloc s' = next_alloc s \<and> remaining_cache_size s' = remaining_cache_size s \<and>
      (\<forall>a. a \<notin> A \<longrightarrow> objs s' a = objs s a) \<and>
      (\<forall>a e. a \<in> A \<longrightarrow> objs s a = Some e \<longrightarrow>
         (\<exists>t. objs s' a = Some (e\<lparr>last_access := t\<rparr>))))"

text \<open>
  A response of exactly \<open>MAX_OBJECT_SIZE\<close> bytes as \<open>Rio_readn\<close> delivers it with
  \<open>MAXLINE = 8192\<close>: twelve full blocks and a last one of 4096 bytes.
\<close>

definition full_response :: "byte list list" where
  "full_response =
     (let c = replicate 8192 1
      in [c, c, c, c, c, c, c, c, c, c, c, c, replicate 4096 2])"

section \<open>Evaluation\<close>

text \<open>
  Concrete runs are evaluated by rewriting.  The congruence rules below make the simplifier
  evaluate the bound value of a \<open>let\<close>, the scrutinee of a \<open>case\<close> and the first
  argument of a bind before it looks at the body.
\<close>

lemma bind_weak_cong: "a = b \<Longrightarrow> Option.bind a f = Option.bind b f"
  by simp

lemmas eval_congs = let_weak_cong prod.case_cong_weak option.case_cong_weak bind_weak_cong

subsection \<open>Reading what was written\<close>

lemma word32_of_bytes:
  fixes w :: "32 word"
  shows "ucast (ucast w :: 8 word) OR push_bit 8 (ucast (ucast (drop_bit 8 w) :: 8 word)) OR
         push_bit 16 (ucast (ucast (drop_bit 16 w) :: 8 word)) OR
         push_bit 24 (ucast (ucast (drop_bit 24 w) :: 8 word)) = w"
proof (rule bit_word_eqI, goal_cases)
  case (1 n)
  then consider "n < 8" | "8 \<le> n" "n < 16" | "16 \<le> n" "n < 24" | "24 \<le> n" "n < 32"
    by fastforce
  then show ?case
    by cases (auto simp add: bit_simps)
qed

lemma PUT_fields [simp]:
  "mem_start (PUT s p v) = mem_start s"
  "mem_brk (PUT s p v) = mem_brk s"
  "mem_max (PUT s p v) = mem_max s"
  "heap_listp (PUT s p v) = heap_listp s"
  "free_list_root (PUT s p v) = free_list_root s"
  by (simp_all add: PUT_def Let_def)

lemma GET_PUT_same [simp]: "p = q \<Longrightarrow> GET (PUT s p v) q = of_nat v"
  by (simp add: GET_def PUT_def Let_def word32_of_bytes)

lemma GET_PUT_other [simp]: "p + 4 \<le> q \<or> q + 4 \<le> p \<Longrightarrow> GET (PUT s p v) q = GET s q"
  by (auto simp add: GET_def PUT_def Let_def)

lemma PUT_PTR_fields [simp]:
  "mem_start (PUT_PTR s p v) = mem_start s"
  "mem_brk (PUT_PTR s p v) = mem_brk s"
  "mem_max (PUT_PTR s p v) = mem_max s"
  "heap_listp (PUT_PTR s p v) = heap_listp s"
  "free_list_root (PUT_PTR s p v) = free_list_root s"
  by (simp_all add: PUT_PTR_def)

lemma PUT_update_fields [simp]:
  "PUT (s\<lparr>free_list_root := r\<rparr>) p v = (PUT s p v)\<lparr>free_list_root := r\<rparr>"
  "PUT (s\<lparr>heap_listp := h\<rparr>) p v = (PUT s p v)\<lparr>heap_listp := h\<rparr>"
  "PUT (s\<lparr>mem_brk := b\<rparr>) p v = (PUT s p v)\<lparr>mem_brk := b\<rparr>"
  by (simp_all add: PUT_def Let_def)

lemma GET_update_fields [simp]:
  "GET (s\<lparr>free_list_root := r\<rparr>) q = GET s q"
  "GET (s\<lparr>heap_listp := h\<rparr>) q = GET s q"
  "GET (s\<lparr>mem_brk := b\<rparr>) q = GET s q"
  by (simp_all add: GET_def)

lemma GET_zero_mem: "mem s = (\<lambda>_. 0) \<Longrightarrow> GET s q = 0"
  by (simp add: GET_def)

lemma PUT_PTR_update_fields [simp]:
  "PUT_PTR (s\<lparr>free_list_root := r\<rparr>) p v = (PUT_PTR s p v)\<lparr>free_list_root := r\<rparr>"
  "PUT_PTR (s\<lparr>heap_listp := h\<rparr>) p v = (PUT_PTR s p v)\<lparr>heap_listp := h\<rparr>"
  "PUT_PTR (s\<lparr>mem_brk := b\<rparr>) p v = (PUT_PTR s p v)\<lparr>mem_brk := b\<rparr>"
  by (simp_all add: PUT_PTR_def)

lemma GET_PTR_update_fields [simp]:
  "GET_PTR (s\<lparr>free_list_root := r\<rparr>) q = GET_PTR s q"
  "GET_PTR (s\<lparr>heap_listp := h\<rparr>) q = GET_PTR s q"
  "GET_PTR (s\<lparr>mem_brk := b\<rparr>) q = GET_PTR s q"
  by (simp_all add: GET_PTR_def)

lemma GET_PUT_PTR_other [simp]:
  "p + 8 \<le> q \<or> q + 4 \<le> p \<Longrightarrow> GET (PUT_PTR s p v) q = GET s q"
  by (auto simp add: PUT_PTR_def)

lemma GET_PTR_PUT_other [simp]:
  "p + 4 \<le> q \<or> q + 8 \<le> p \<Longrightarrow> GET_PTR (PUT s p v) q = GET_PTR s q"
  by (auto simp add: GET_PTR_def)

lemma GET_PTR_PUT_PTR_other [simp]:
  "p + 8 \<le> q \<or> q + 8 \<le> p \<Longrightarrow> GET_PTR (PUT_PTR s p v) q = GET_PTR s q"
  by (auto simp add: GET_PTR_def)

lemma GET_PTR_PUT_PTR_same [simp]:
  assumes "p = q"
  shows "GET_PTR (PUT_PTR s p v) q = v mod 18446744073709551616"
proof -
  have lo: "GET (PUT_PTR s p v) p = of_nat (v mod 4294967296)"
    by (simp add: PUT_PTR_def)
  have hi: "GET (PUT_PTR s p v) (p + 4) = of_nat (v div 4294967296)"
    by (simp add: PUT_PTR_def)
  have "v mod 18446744073709551616 = v mod (4294967296 * 4294967296)"
    by simp
  also have "\<dots> = v mod 4294967296 + 4294967296 * (v div 4294967296 mod 4294967296)"
    by (simp only: mod_mult2_eq add.commute)
  finally show ?thesis
    unfolding assms [symmetric] by (simp add: GET_PTR_def lo hi unat_of_nat)
qed

lemma memcpy_fields [simp]:
  "mem_start (memcpy s d a n) = mem_start s"
  "mem_brk (memcpy s d a n) = mem_brk s"
  "mem_max (memcpy s d a n) = mem_max s"
  "heap_listp (memcpy s d a n) = heap_listp s"
  "free_list_root (memcpy s d a n) = free_list_root s"
  by (simp_all add: memcpy_def)

lemma GET_memcpy_other [simp]:
  "q + 4 \<le> d \<or> d + n \<le> q \<Longrightarrow> GET (memcpy s d a n) q = GET s q"
  by (auto simp add: GET_def memcpy_def)

lemma GET_memcpy_inside [simp]:
  "d \<le> q \<and> q + 4 \<le> d + n \<Longrightarrow> GET (memcpy s d a n) q = GET s (a + (q - d))"
proof -
  assume a: "d \<le> q \<and> q + 4 \<le> d + n"
  then obtain e where q: "q = d + e"
    using le_Suc_ex by blast
  have "d + e + k - d = e + k" for k
    by simp
  with a show ?thesis
    unfolding q by (simp add: GET_def memcpy_def add.assoc)
qed

lemma GET_PTR_memcpy_other [simp]:
  "q + 8 \<le> d \<or> d + n \<le> q \<Longrightarrow> GET_PTR (memcpy s d a n) q = GET_PTR s q"
  by (auto simp add: GET_PTR_def)

lemmas alloc_eval = mm_init_def mem_sbrk_def extend_heap_def coalesce_def add_to_freelist_def
  remove_from_freelist_def GET_SIZE_def GET_ALLOC_def HDRP_def FTRP_def NEXT_BLKP_def
  PREV_BLKP_def PACK_def GET_NEXT_FREE_def GET_PREV_FREE_def PUT_NEXT_FREE_def
  PUT_PREV_FREE_def fresh_heap_def place_def mm_malloc_def malloc_search_place_def
  find_fit_def adjusted_size_def find_fit_loop.simps mm_free_def mm_realloc_def
  realloc_copy_size_def

lemmas cache_eval = empty_cache_def Malloc_def init_cache_def assign_def blank_def
  write_to_cache_def add_cache_entry_def find_LRU_def delete_cache_entry_def
  free_cache_entry_def search_cache_def

section \<open>The allocator: results\<close>

subsection \<open>The adjusted block size\<close>

text \<open>
  Claim C2, as amended.  For every request \<open>size'\<close> with \<open>0 < size'\<close> whose
  adjustment does not wrap (\<open>size' + 31 < 2 ^ 64\<close>), \<open>mm_malloc\<close> searches and
  places a block of the adjusted size, and the adjusted size is 24 bytes when
  \<open>size' \<le> 16\<close> and otherwise \<open>size' + 16\<close> rounded up to a multiple of 16.
  A request of size 0 returns the null pointer.
\<close>

theorem adjusted_size_value:
  assumes "0 < size'" and "size' + 31 < 2 ^ 64"
  shows "mm_malloc s size' =
           malloc_search_place (if heap_listp s = 0 then fst (mm_init s) else s)
             (adjusted_size size')
         \<and> adjusted_size size' = (if size' \<le> 16 then 24 else round_up (size' + 16) 16)
         \<and> map_option snd (mm_malloc s 0) = Some 0"
  using assms by (simp add: mm_malloc_def adjusted_size_def round_up_def Let_def)

theorem adjusted_size_value_witness:
  "(0::nat) < 17 \<and> (17::nat) + 31 < 2 ^ 64 \<and>
   mm_malloc (fresh_heap 4096 100000) 17 =
     malloc_search_place
       (if heap_listp (fresh_heap 4096 100000) = 0 then fst (mm_init (fresh_heap 4096 100000))
        else fresh_heap 4096 100000) (adjusted_size 17)
   \<and> adjusted_size 17 = 48
   \<and> map_option snd (mm_malloc (fresh_heap 4096 100000) 0) = Some 0"
  using adjusted_size_value [of 17 "fresh_heap 4096 100000"]
  by (simp add: round_up_def)

text \<open>
  The wording of claim C2, \<open>max(24, round_up(size + 8, 16))\<close>, fails for a request of
  17 bytes: the code adjusts it to 48 bytes, the formula gives 32.
\<close>

theorem adjusted_size_counterexample:
  "adjusted_size 17 \<noteq> max 24 (round_up (17 + 8) 16)"
  by (simp add: adjusted_size_def round_up_def)

subsection \<open>Initialisation on first use\<close>

lemma add_to_freelist_heap_listp [simp]:
  "heap_listp (add_to_freelist s bp) = heap_listp s"
  by (simp add: add_to_freelist_def PUT_NEXT_FREE_def PUT_PREV_FREE_def Let_def)

lemma remove_from_freelist_heap_listp [simp]:
  "heap_listp (remove_from_freelist s bp) = heap_listp s"
  by (simp add: remove_from_freelist_def PUT_NEXT_FREE_def PUT_PREV_FREE_def Let_def)

lemma coalesce_heap_listp [simp]:
  "heap_listp (fst (coalesce s bp)) = heap_listp s"
  by (simp add: coalesce_def Let_def)

lemma extend_heap_heap_listp [simp]:
  "heap_listp (fst (extend_heap s words)) = heap_listp s"
  by (simp add: extend_heap_def mem_sbrk_def Let_def)

text \<open>After \<open>mm_init\<close>, also after a failed one, \<open>heap_listp\<close> is not null.\<close>

lemma mm_init_heap_listp: "heap_listp (fst (mm_init s)) \<noteq> 0"
  by (simp add: mm_init_def mem_sbrk_def Let_def case_prod_beta)

text \<open>
  When the arena has room for the 16 bytes of the sentinels and the first chunk,
  \<open>mm_init\<close> builds the initial heap, whatever the arena held before.
\<close>

lemma mm_init_initial_heap:
  assumes room: "mem_brk s + 16 + 2048 \<le> mem_max s" and fits: "mem_max s < 2 ^ 64"
  shows "initial_heap (mem_brk s) (fst (mm_init s))"
proof -
  have b: "mem_brk s \<noteq> 18446744073709551615" "\<not> mem_max s < mem_brk s + 16"
    "mem_brk s + 16 \<noteq> 18446744073709551615" "\<not> mem_max s < mem_brk s + 16 + 2048"
    "\<not> mem_max s < mem_brk s + 2064"
    using room fits by simp_all
  show ?thesis
    using b
    by (simp add: initial_heap_def mm_init_def mem_sbrk_def extend_heap_def coalesce_def
      add_to_freelist_def GET_SIZE_def GET_ALLOC_def HDRP_def FTRP_def NEXT_BLKP_def
      PREV_BLKP_def PACK_def GET_NEXT_FREE_def GET_PREV_FREE_def PUT_NEXT_FREE_def
      PUT_PREV_FREE_def Let_def cong: eval_congs)
qed

text \<open>
  Claim C10, as amended.  On a heap that was never initialised (\<open>heap_listp = 0\<close>),
  \<open>mm_malloc\<close> first runs \<open>mm_init\<close> and then serves the request on the heap that
  \<open>mm_init\<close> left: the call equals the same call on that heap, whose \<open>heap_listp\<close>
  is no longer null, and which is the full initial heap (prologue, one free block of 2048
  bytes on the free list, epilogue) when the arena has room for it.  \<open>mm_free\<close> of the
  null pointer returns at once and initialises nothing.
\<close>

theorem malloc_initialises_first:
  assumes "heap_listp s = 0"
  shows "mm_malloc s size' = mm_malloc (fst (mm_init s)) size' \<and>
         heap_listp (fst (mm_init s)) \<noteq> 0 \<and>
         (mem_brk s + 16 + 2048 \<le> mem_max s \<and> mem_max s < 2 ^ 64 \<longrightarrow>
            initial_heap (mem_brk s) (fst (mm_init s))) \<and>
         mm_free s 0 = s"
  using assms mm_init_heap_listp [of s] mm_init_initial_heap [of s]
  by (simp add: mm_malloc_def mm_free_def)

theorem malloc_initialises_first_witness:
  "heap_listp (fresh_heap 4096 100000) = 0 \<and>
   mem_brk (fresh_heap 4096 100000) + 16 + 2048 \<le> mem_max (fresh_heap 4096 100000) \<and>
   mem_max (fresh_heap 4096 100000) < 2 ^ 64 \<and>
   mm_malloc (fresh_heap 4096 100000) 24 =
     mm_malloc (fst (mm_init (fresh_heap 4096 100000))) 24 \<and>
   heap_listp (fst (mm_init (fresh_heap 4096 100000))) \<noteq> 0 \<and>
   initial_heap 4096 (fst (mm_init (fresh_heap 4096 100000))) \<and>
   mm_free (fresh_heap 4096 100000) 0 = fresh_heap 4096 100000"
  using malloc_initialises_first [of "fresh_heap 4096 100000" 24]
  by (simp add: fresh_heap_def)

text \<open>
  The wording of claim C10 fails for \<open>free\<close>: freeing the null pointer on a heap that
  was never initialised runs no initialisation, and the heap stays uninitialised.
\<close>

theorem free_null_skips_init:
  "heap_listp (fresh_heap 4096 100000) = 0 \<and>
   heap_listp (mm_free (fresh_heap 4096 100000) 0) = 0 \<and>
   \<not> initial_heap 4096 (mm_free (fresh_heap 4096 100000) 0)"
  by (simp add: mm_free_def fresh_heap_def initial_heap_def)

subsection \<open>The heap checker\<close>

text \<open>
  The heap walk of \<open>mm_checkheap\<close> steps by \<open>NEXT_BLKP\<close>, which adds the size in
  the header.  At a block whose header holds size 0, such as the epilogue, the step does not
  move, and the pointer never becomes null: from there the walk never returns.
\<close>

lemma checkheap_walk_stuck_aux:
  assumes "checkheap_walk s block j = Some y"
  shows "\<not> (block \<noteq> 0 \<and> GET_SIZE s (HDRP block) = 0)"
proof (rule checkheap_walk.raw_induct
    [where P = "\<lambda>s block j y. \<not> (block \<noteq> 0 \<and> GET_SIZE s (HDRP block) = 0)", OF _ assms],
    goal_cases)
  case (1 walk s block j y)
  show ?case
  proof
    assume z: "block \<noteq> 0 \<and> GET_SIZE s (HDRP block) = 0"
    then have "NEXT_BLKP s block = block"
      by (simp add: NEXT_BLKP_def HDRP_def)
    with z 1(2) obtain j' where "walk s block j' = Some y"
      by (simp split: if_splits)
    from 1(1) [OF this] z show False
      by simp
  qed
qed

lemma checkheap_walk_stuck:
  "block \<noteq> 0 \<Longrightarrow> GET_SIZE s (HDRP block) = 0 \<Longrightarrow> checkheap_walk s block j = None"
  using checkheap_walk_stuck_aux [of s block j] by (cases "checkheap_walk s block j") auto

text \<open>
  Claim C8 fails on the code.  On the heap that \<open>mm_init\<close> builds in an empty arena of
  100000 bytes at address 4096, the free-list loop of \<open>mm_checkheap\<close> passes with one
  block counted, and the heap walk goes from the prologue to the free block to the epilogue
  and stays there: \<open>mm_checkheap\<close> does not return.
\<close>

theorem checkheap_never_returns:
  "mm_checkheap (fst (mm_init (fresh_heap 4096 100000))) = None"
proof -
  define s where "s = fst (mm_init (fresh_heap 4096 100000))"
  have fl: "checkheap_freelist s (free_list_root s) 0 = Some (Finished 1)"
    unfolding s_def
    by (simp add: alloc_eval checkheap_freelist.simps mem_heap_lo_def mem_heap_hi_def
        Let_def cong: eval_congs)
  have epi: "GET_SIZE s (HDRP 6160) = 0"
    unfolding s_def by (simp add: alloc_eval Let_def cong: eval_congs)
  have stuck: "checkheap_walk s 6160 1 = None"
    by (rule checkheap_walk_stuck) (simp_all add: epi)
  have w1: "checkheap_walk s (heap_listp s) 0 = checkheap_walk s 6160 1"
    unfolding s_def
    apply (subst checkheap_walk.simps)
    apply (simp add: alloc_eval Let_def cong: eval_congs)
    apply (subst checkheap_walk.simps)
    apply (simp add: alloc_eval Let_def cong: eval_congs)
    done
  show ?thesis
    unfolding s_def [symmetric] mm_checkheap_def fl w1 stuck by simp
qed

subsection \<open>Reallocation\<close>

text \<open>
  What \<open>mm_realloc\<close> does when the pointer and the size are not null and the
  allocation succeeds: it copies \<open>min(block size, size)\<close> bytes, the block size
  being the one in the header of the old block, and frees the old block.
\<close>

lemma mm_realloc_copy:
  assumes "size' \<noteq> 0" and "ptr \<noteq> 0" and "mm_malloc s size' = Some (s1, newptr)"
    and "newptr \<noteq> 0"
  shows "mm_realloc s ptr size' =
           Some (mm_free (memcpy s1 newptr ptr (min (GET_SIZE s1 (HDRP ptr)) size')) ptr, newptr)"
  using assms by (simp add: mm_realloc_def realloc_copy_size_def Let_def min_def)

text \<open>
  Claim C1 fails on the code.  \<open>mm_malloc\<close> of 24 bytes in a fresh arena returns the
  block at 4112, whose header holds size 48: its payload is the 40 bytes from 4112 to 4151.
  \<open>mm_realloc\<close> of that block to 48 bytes hands \<open>memcpy\<close> the block size, 48, and
  not the payload size: the new block at 4160 receives, at offsets 40 and 44, the footer of
  the old block (49, size 48 and allocated) and the header that follows it (65), which lie
  outside the old payload; before the call the word at offset 40 was 0.
\<close>

theorem realloc_copies_block_size:
  "do {
     (s1, p) \<leftarrow> mm_malloc (fresh_heap 4096 100000) 24;
     (s', q') \<leftarrow> mm_malloc s1 48;
     (s2, q) \<leftarrow> mm_realloc s1 p 48;
     Some (p, GET_SIZE s1 (HDRP p) - DSIZE, realloc_copy_size s' p 48, q,
           GET s1 (q + 40), GET s2 (q + 40), GET s2 (q + 44))
   } = Some (4112, 40, 48, 4160, 0, 49, 65)"
  by (simp add: alloc_eval GET_zero_mem Let_def cong: eval_congs)

subsection \<open>The placement policy\<close>

lemma find_fit_loop_scan:
  "freelist s a as \<Longrightarrow>
   find_fit_loop s asize a count scount start best bp =
     Some (scan asize (blocks_of s as) count scount start best bp)"
proof (induction as arbitrary: a count scount start best bp)
  case Nil
  then show ?case
    by (subst find_fit_loop.simps) (simp add: blocks_of_def)
next
  case (Cons b bs)
  from Cons.prems have b: "b \<noteq> 0" and a: "a = b"
    and rest: "freelist s (GET_NEXT_FREE s b) bs"
    by simp_all
  note ih = Cons.IH [OF rest]
  show ?case
    unfolding a
    by (subst find_fit_loop.simps) (simp add: b ih blocks_of_def Let_def)
qed

lemma first_smallest_single [simp]: "first_smallest [c] = c"
  by (simp add: first_smallest_def)

lemma first_smallest_Cons2:
  "first_smallest (x # y # cs) = first_smallest ((if snd y < snd x then y else x) # cs)"
proof (cases "snd y < snd x")
  case True
  have "filter (\<lambda>c. \<forall>d\<in>set (x # y # cs). snd c \<le> snd d) (x # y # cs) =
        filter (\<lambda>c. \<forall>d\<in>set (y # cs). snd c \<le> snd d) (y # cs)"
    using True by (auto intro!: filter_cong)
  with True show ?thesis
    by (simp only: first_smallest_def if_True)
next
  case False
  show ?thesis
  proof (cases "\<forall>d\<in>set cs. snd x \<le> snd d")
    case True
    with False show ?thesis
      by (simp add: first_smallest_def)
  next
    case nmin: False
    have "filter (\<lambda>c. \<forall>d\<in>set (x # y # cs). snd c \<le> snd d) (x # y # cs) =
          filter (\<lambda>c. \<forall>d\<in>set (x # cs). snd c \<le> snd d) (x # cs)"
      using False nmin by (auto intro!: filter_cong)
    with False show ?thesis
      by (simp only: first_smallest_def if_False)
  qed
qed

text \<open>
  \<open>first_smallest\<close> picks an element that splits the list: every element before it
  is strictly larger, every element after it at least as large.
\<close>

lemma first_smallest_split:
  assumes "cs \<noteq> []"
  shows "\<exists>xs ys. cs = xs @ first_smallest cs # ys \<and>
           (\<forall>d\<in>set xs. snd (first_smallest cs) < snd d) \<and>
           (\<forall>d\<in>set ys. snd (first_smallest cs) \<le> snd d)"
proof -
  let ?P = "\<lambda>c. \<forall>d\<in>set cs. snd c \<le> snd d"
  from assms have "\<exists>m\<in>set cs. \<forall>d\<in>set cs. snd m \<le> snd d"
  proof (induction cs rule: list_nonempty_induct)
    case (single x)
    then show ?case by simp
  next
    case (cons x xs)
    then obtain m where m: "m \<in> set xs" "\<forall>d\<in>set xs. snd m \<le> snd d"
      by blast
    show ?case
    proof (cases "snd x \<le> snd m")
      case True
      with m show ?thesis by (intro bexI [of _ x]) auto
    next
      case False
      with m show ?thesis by (intro bexI [of _ m]) auto
    qed
  qed
  then have "filter ?P cs \<noteq> []"
    by (auto simp add: filter_empty_conv)
  then obtain c rest where f: "filter ?P cs = c # rest"
    by (cases "filter ?P cs") auto
  then have c: "first_smallest cs = c"
    by (simp add: first_smallest_def)
  from f obtain xs ys where split: "cs = xs @ c # ys" "\<forall>x\<in>set xs. \<not> ?P x" "?P c"
    by (auto simp add: filter_eq_Cons_iff)
  have "snd c < snd x" if "x \<in> set xs" for x
  proof -
    from split(2) that obtain d where "d \<in> set cs" "snd d < snd x"
      by (auto simp add: not_le)
    with split(3) show ?thesis
      by fastforce
  qed
  then have "cs = xs @ c # ys \<and> (\<forall>d\<in>set xs. snd c < snd d) \<and> (\<forall>d\<in>set ys. snd c \<le> snd d)"
    using split by auto
  then show ?thesis
    unfolding c by blast
qed

lemma upto_fits_Nil [simp]: "upto_fits n asize [] = []"
  by (cases n) simp_all

lemma upto_fits_Cons:
  "0 < n \<Longrightarrow> upto_fits n asize (b # bs) =
     b # upto_fits (if asize \<le> snd b then n - 1 else n) asize bs"
  by (cases n) simp_all

lemma upto_fits_prefix: "\<exists>r. bs = upto_fits n asize bs @ r"
proof (induction n asize bs rule: upto_fits.induct)
  case (3 n asize b bs)
  then show ?case by (cases "asize \<le> snd b") auto
qed simp_all

lemma upto_fits_count: "length (filter (\<lambda>b. asize \<le> snd b) (upto_fits n asize bs)) \<le> n"
proof (induction n asize bs rule: upto_fits.induct)
  case (3 n asize b bs)
  then show ?case by (cases "asize \<le> snd b") auto
qed simp_all


text \<open>
  Once the first fit is found the loop counts: it goes on for at most
  \<open>FURTHESTDOWN - scount\<close> blocks and \<open>FITS - count\<close> fits, and keeps the first
  smallest of the best block so far and the fits it meets.
\<close>

lemma scan_counting:
  "0 < count \<Longrightarrow>
   scan asize bs count scount True best bp =
     fst (first_smallest ((bp, best) #
       filter (\<lambda>b. asize \<le> snd b)
         (upto_fits (FITS - count) asize (take (FURTHESTDOWN - scount) bs))))"
proof (induction bs arbitrary: count scount best bp)
  case Nil
  then show ?case by simp
next
  case (Cons b bs)
  show ?case
  proof (cases "count < FITS \<and> scount < FURTHESTDOWN")
    case False
    then have "FITS - count = 0 \<or> FURTHESTDOWN - scount = 0"
      by auto
    with False show ?thesis
      by auto
  next
    case True
    then have tk: "take (FURTHESTDOWN - scount) (b # bs) =
        b # take (FURTHESTDOWN - (scount + 1)) bs"
      by (simp add: take_Cons')
    have up: "upto_fits (FITS - count) asize (b # take (FURTHESTDOWN - (scount + 1)) bs) =
        b # upto_fits (if asize \<le> snd b then FITS - (count + 1) else FITS - count) asize
              (take (FURTHESTDOWN - (scount + 1)) bs)"
      using True by (simp add: upto_fits_Cons)
    show ?thesis
    proof (cases "asize \<le> snd b")
      case fits: True
      have "scan asize (b # bs) count scount True best bp =
              scan asize bs (count + 1) (scount + 1) True
                (if snd b < best then snd b else best) (if snd b < best then fst b else bp)"
        using True fits Cons.prems by (simp add: Let_def)
      also have "\<dots> = fst (first_smallest
          ((if snd b < best then fst b else bp, if snd b < best then snd b else best) #
            filter (\<lambda>b. asize \<le> snd b)
              (upto_fits (FITS - (count + 1)) asize (take (FURTHESTDOWN - (scount + 1)) bs))))"
        by (rule Cons.IH) simp
      also have "(if snd b < best then fst b else bp, if snd b < best then snd b else best) =
                 (if snd b < snd (bp, best) then b else (bp, best))"
        by simp
      finally show ?thesis
        unfolding tk up using fits by (simp only: first_smallest_Cons2 filter.simps if_True)
    next
      case nofit: False
      have "scan asize (b # bs) count scount True best bp =
              scan asize bs count (scount + 1) True best bp"
        using True nofit by (simp add: Let_def)
      also have "\<dots> = fst (first_smallest ((bp, best) #
            filter (\<lambda>b. asize \<le> snd b)
              (upto_fits (FITS - count) asize (take (FURTHESTDOWN - (scount + 1)) bs))))"
        by (rule Cons.IH) (rule Cons.prems)
      finally show ?thesis
        unfolding tk up using nofit by simp
    qed
  qed
qed

lemma candidates_examined:
  "filter (\<lambda>b. asize \<le> snd b) (examined asize bs) =
     (case dropWhile (\<lambda>b. snd b < asize) bs of
        [] \<Rightarrow> []
      | c # rest \<Rightarrow>
          filter (\<lambda>b. asize \<le> snd b) (upto_fits FITS asize (c # take FURTHESTDOWN rest)))"
proof -
  have pre: "filter (\<lambda>b. asize \<le> snd b) (takeWhile (\<lambda>b. snd b < asize) bs) = []"
    by (auto simp add: filter_empty_conv dest: set_takeWhileD)
  show ?thesis
  proof (cases "dropWhile (\<lambda>b. snd b < asize) bs")
    case Nil
    then have "\<forall>b\<in>set bs. snd b < asize"
      by (simp add: dropWhile_eq_Nil_conv)
    then have "filter (\<lambda>b. asize \<le> snd b) bs = []"
      by (auto simp add: filter_empty_conv)
    then show ?thesis
      unfolding examined_def Nil by simp
  next
    case (Cons c rest)
    show ?thesis
      unfolding examined_def Cons by (simp add: pre del: upto_fits.simps)
  qed
qed

text \<open>
  The blocks examined are a prefix of the free list; they hold at most \<open>FITS\<close>
  candidates and reach at most \<open>FURTHESTDOWN\<close> blocks past the first candidate.
\<close>

lemma examined_prefix: "\<exists>r. bs = examined asize bs @ r"
proof (cases "dropWhile (\<lambda>b. snd b < asize) bs")
  case Nil
  show ?thesis unfolding examined_def Nil by simp
next
  case (Cons c rest)
  from upto_fits_prefix [of "c # take FURTHESTDOWN rest" FITS asize] obtain r where
    r: "c # take FURTHESTDOWN rest = upto_fits FITS asize (c # take FURTHESTDOWN rest) @ r"
    by blast
  have "bs = takeWhile (\<lambda>b. snd b < asize) bs @ c # rest"
    using Cons takeWhile_dropWhile_id [of "\<lambda>b. snd b < asize" bs] by simp
  also have "c # rest = (c # take FURTHESTDOWN rest) @ drop FURTHESTDOWN rest"
    by simp
  also have "\<dots> = upto_fits FITS asize (c # take FURTHESTDOWN rest) @ r @ drop FURTHESTDOWN rest"
    using r by (metis append.assoc)
  finally have "bs = (takeWhile (\<lambda>b. snd b < asize) bs @
      upto_fits FITS asize (c # take FURTHESTDOWN rest)) @ (r @ drop FURTHESTDOWN rest)"
    by simp
  then show ?thesis
    unfolding examined_def Cons by (simp only: list.case) (rule exI)
qed

lemma examined_bounds:
  "length (filter (\<lambda>b. asize \<le> snd b) (examined asize bs)) \<le> FITS \<and>
   length (examined asize bs) \<le> length (takeWhile (\<lambda>b. snd b < asize) bs) + 1 + FURTHESTDOWN"
proof (cases "dropWhile (\<lambda>b. snd b < asize) bs")
  case Nil
  then have all: "takeWhile (\<lambda>b. snd b < asize) bs = bs"
    by (simp add: dropWhile_eq_Nil_conv)
  have "filter (\<lambda>b. asize \<le> snd b) bs = []"
    using Nil by (auto simp add: filter_empty_conv dropWhile_eq_Nil_conv)
  with Nil all show ?thesis
    unfolding examined_def by (simp only: list.case) simp
next
  case (Cons c rest)
  have pre: "filter (\<lambda>b. asize \<le> snd b) (takeWhile (\<lambda>b. snd b < asize) bs) = []"
    by (auto simp add: filter_empty_conv dest: set_takeWhileD)
  from upto_fits_prefix [of "c # take FURTHESTDOWN rest" FITS asize] obtain r where
    "c # take FURTHESTDOWN rest = upto_fits FITS asize (c # take FURTHESTDOWN rest) @ r"
    by blast
  then have "length (upto_fits FITS asize (c # take FURTHESTDOWN rest)) \<le>
      length (c # take FURTHESTDOWN rest)"
    by (metis le_add1 length_append)
  then have len: "length (upto_fits FITS asize (c # take FURTHESTDOWN rest)) \<le> 1 + FURTHESTDOWN"
    by simp
  show ?thesis
    unfolding examined_def Cons
    using len upto_fits_count [of asize FITS "c # take FURTHESTDOWN rest"]
    by (simp add: pre del: upto_fits.simps)
qed

lemma scan_best_fit: "scan asize bs 0 0 False best 0 = best_fit asize bs"
proof (induction bs)
  case Nil
  show ?case by (simp add: best_fit_def candidates_examined)
next
  case (Cons b bs)
  show ?case
  proof (cases "asize \<le> snd b")
    case True
    have "scan asize (b # bs) 0 0 False best 0 = scan asize bs 1 0 True (snd b) (fst b)"
      using True by (simp add: Let_def)
    also have "\<dots> = fst (first_smallest ((fst b, snd b) #
        filter (\<lambda>b. asize \<le> snd b) (upto_fits (FITS - 1) asize (take (FURTHESTDOWN - 0) bs))))"
      by (rule scan_counting) simp
    also have "\<dots> = best_fit asize (b # bs)"
      using True by (simp add: best_fit_def candidates_examined upto_fits_Cons)
    finally show ?thesis .
  next
    case False
    then have "scan asize (b # bs) 0 0 False best 0 = scan asize bs 0 0 False best 0"
      by (simp add: Let_def)
    also have "\<dots> = best_fit asize bs"
      by (rule Cons.IH)
    also have "\<dots> = best_fit asize (b # bs)"
      using False by (simp add: best_fit_def candidates_examined)
    finally show ?thesis .
  qed
qed

text \<open>
  Claim C7.  Whenever the free list is a list \<open>as\<close> of blocks that ends in the null
  pointer, \<open>find_fit\<close> returns, and its result is the \<open>best_fit\<close> of the
  specification on these blocks with the sizes in their headers: the first smallest of the
  candidates among the blocks examined, where the examination stops 200 blocks after the
  first candidate or at the eighth candidate, and the null pointer when there is no
  candidate.
\<close>

theorem find_fit_best_fit:
  assumes "freelist s (free_list_root s) as"
  shows "find_fit s asize = Some (best_fit asize (blocks_of s as))"
  unfolding find_fit_def find_fit_loop_scan [OF assms] scan_best_fit ..

theorem find_fit_best_fit_witness:
  "freelist fit_example (free_list_root fit_example) [4336, 4112] \<and>
   blocks_of fit_example [4336, 4112] = [(4336, 1824), (4112, 48)] \<and>
   find_fit fit_example 24 = Some 4112"
proof -
  have facts: "(let s = fit_example
      in (free_list_root s, GET_NEXT_FREE s 4336, GET_NEXT_FREE s 4112,
          GET_SIZE s (HDRP 4336), GET_SIZE s (HDRP 4112))) = (4336, 4112, 0, 1824, 48)"
    by (simp add: fit_example_def alloc_eval Let_def cong: eval_congs)
  then have fl: "freelist fit_example (free_list_root fit_example) [4336, 4112]"
    and bl: "blocks_of fit_example [4336, 4112] = [(4336, 1824), (4112, 48)]"
    by (simp_all add: Let_def blocks_of_def)
  from find_fit_best_fit [OF fl, of 24] show ?thesis
    unfolding bl using fl bl
    by (simp add: best_fit_def examined_def first_smallest_def upto_fits_Cons Let_def)
qed

section \<open>The cache: results\<close>

subsection \<open>The accounting invariant\<close>

lemma assign_Some: "objs s p = Some e \<Longrightarrow> assign s p f = Some (s\<lparr>objs := (objs s)(p \<mapsto> f e)\<rparr>)"
  by (simp add: assign_def)

lemma dll_frame:
  "dll s p a xs \<Longrightarrow>
   (\<And>x. x \<in> set xs \<Longrightarrow>
      \<exists>e e'. objs s x = Some e \<and> objs s' x = Some e' \<and> next' e' = next' e \<and> prev' e' = prev' e) \<Longrightarrow>
   dll s' p a xs"
proof (induction xs arbitrary: p a)
  case Nil
  then show ?case by simp
next
  case (Cons x xs)
  from Cons.prems(2) [of x] obtain e e' where
    e: "objs s x = Some e" "objs s' x = Some e'" "next' e' = next' e" "prev' e' = prev' e"
    by auto
  from Cons.prems(1) e have "dll s x (next' e) xs" and rest: "a \<noteq> 0" "a = x" "prev' e = p"
    by simp_all
  then have "dll s' x (next' e) xs"
    using Cons.prems(2) by (intro Cons.IH) auto
  with e rest show ?case
    by simp
qed

lemma dll_allocated: "dll s p a xs \<Longrightarrow> x \<in> set xs \<Longrightarrow> \<exists>e. objs s x = Some e"
  by (induction xs arbitrary: p a) (auto split: option.splits)

lemma sum_sizes_frame:
  "(\<And>x. x \<in> set xs \<Longrightarrow> size_at s' x = size_at s x) \<Longrightarrow> sum_sizes s' xs = sum_sizes s xs"
  unfolding sum_sizes_def by (induction xs) auto


lemma write_to_cache_room:
  assumes inv: "cache_inv s c xs"
    and room: "obj_size \<le> remaining_cache_size s"
    and pos: "0 \<le> obj_size"
  shows "\<exists>s'. write_to_cache s c c_url obj_size resp now = Some s' \<and>
              cache_inv s' c (next_alloc s # xs)"
proof -
  define n where "n = next_alloc s"
  from inv obtain h where h: "objs s c = Some h" "last_access h = 0" "dll s c (next' h) xs"
    by (auto simp add: cache_inv_def split: option.splits)
  from inv have c: "c \<noteq> 0" "c < n" "c \<noteq> n" and xs: "\<forall>x\<in>set xs. x < n" "c \<notin> set xs" "distinct xs"
    and nn: "n \<notin> set xs"
    and sizes: "\<forall>x\<in>set xs. 0 \<le> size_at s x"
    and urls: "\<forall>x\<in>set xs. has_url s x"
    and acct: "sum_sizes s xs + remaining_cache_size s = MAX_CACHE_SIZE"
    by (auto simp add: cache_inv_def n_def)
  define e where "e = blank\<lparr>response_size := obj_size, url := Some c_url,
    response := Some (take (nat obj_size) resp), last_access := now\<rparr>"
  show ?thesis
  proof (cases xs)
    case Nil
    with h have nh: "next' h = 0" by simp
    define s' where "s' = s\<lparr>objs := (objs s)(n \<mapsto> e\<lparr>next' := 0, prev' := c\<rparr>, c \<mapsto> h\<lparr>next' := n\<rparr>),
      next_alloc := n + 1, remaining_cache_size := remaining_cache_size s - obj_size\<rparr>"
    have w: "write_to_cache s c c_url obj_size resp now = Some s'"
      using room h c nh
      by (simp add: write_to_cache_def Malloc_def add_cache_entry_def assign_def n_def [symmetric]
          s'_def e_def Let_def fun_upd_twist cong: eval_congs)
    have "cache_inv s' c (n # xs)"
      using Nil c h acct pos
      by (simp add: cache_inv_def s'_def size_at_def has_url_def sum_sizes_def e_def)
    with w show ?thesis
      unfolding n_def by blast
  next
    case (Cons y ys)
    with h obtain ey where y: "next' h = y" "y \<noteq> 0" "objs s y = Some ey" "prev' ey = c"
      "dll s y (next' ey) ys"
      by (auto split: option.splits)
    from Cons xs nn have yn: "y \<noteq> n" "y \<noteq> c" "y \<notin> set ys" "n \<notin> set ys" "c \<notin> set ys"
      by auto
    define s' where "s' = s\<lparr>objs := (objs s)(n \<mapsto> e\<lparr>next' := y, prev' := c\<rparr>, c \<mapsto> h\<lparr>next' := n\<rparr>,
        y \<mapsto> ey\<lparr>prev' := n\<rparr>),
      next_alloc := n + 1, remaining_cache_size := remaining_cache_size s - obj_size\<rparr>"
    have w: "write_to_cache s c c_url obj_size resp now = Some s'"
      using room h c y yn
      by (simp add: write_to_cache_def Malloc_def add_cache_entry_def assign_def n_def [symmetric]
          s'_def e_def Let_def fun_upd_twist cong: eval_congs)
    have tail: "dll s' y (next' ey) ys"
      using y(5)
    proof (rule dll_frame)
      fix x assume x: "x \<in> set ys"
      with yn have "x \<noteq> n" "x \<noteq> c" "x \<noteq> y" by auto
      moreover from dll_allocated [OF y(5) x] obtain ex where "objs s x = Some ex" ..
      ultimately show "\<exists>e e'. objs s x = Some e \<and> objs s' x = Some e' \<and>
          next' e' = next' e \<and> prev' e' = prev' e"
        by (simp add: s'_def)
    qed
    have same: "size_at s' x = size_at s x" if "x \<in> set xs" for x
      using that Cons yn xs nn y by (auto simp add: size_at_def s'_def)
    have same_url: "has_url s' x = has_url s x" if "x \<in> set xs" for x
      using that Cons yn xs nn y by (auto simp add: has_url_def s'_def)
    have new_url: "has_url s' n"
      using c yn by (simp add: has_url_def s'_def e_def)
    have "cache_inv s' c (n # xs)"
      unfolding cache_inv_def
      using c xs nn h y yn tail acct pos sizes urls Cons same same_url new_url
        sum_sizes_frame [of xs s' s, OF same]
      by (simp add: s'_def size_at_def sum_sizes_def e_def) (auto simp add: size_at_def)
    with w show ?thesis
      unfolding n_def by blast
  qed
qed


lemma find_LRU_loop_settled:
  "dll s p a xs \<Longrightarrow> objs s temp = Some te \<Longrightarrow> \<not> last_access te < t \<Longrightarrow>
   find_LRU_loop s t temp a = Some temp"
proof (induction xs arbitrary: p a)
  case Nil
  then show ?case
    by (subst find_LRU_loop.simps) simp
next
  case (Cons x xs)
  then obtain e where e: "a \<noteq> 0" "a = x" "objs s x = Some e" "dll s x (next' e) xs"
    by (auto split: option.splits)
  have "find_LRU_loop s t temp a = find_LRU_loop s t temp (next' e)"
    using e Cons.prems(2,3) by (subst find_LRU_loop.simps) simp
  also have "\<dots> = Some temp"
    using e(4) Cons.prems(2,3) by (rule Cons.IH)
  finally show ?case .
qed

lemma find_LRU_first:
  assumes inv: "cache_inv s c (x # xs)" and now: "0 < now"
  shows "find_LRU s c now = Some x"
proof -
  from inv obtain h e where h: "objs s c = Some h" "last_access h = 0" "next' h = x" "x \<noteq> 0"
    and e: "objs s x = Some e" "dll s x (next' e) xs"
    by (auto simp add: cache_inv_def split: option.splits)
  have "find_LRU s c now = find_LRU_loop s now c x"
    using h by (simp add: find_LRU_def)
  also have "\<dots> = find_LRU_loop s (last_access e) x (next' e)"
    using h e now by (subst find_LRU_loop.simps) simp
  also have "\<dots> = Some x"
    using e(2,1) by (rule find_LRU_loop_settled) simp
  finally show ?thesis .
qed

lemma evict_first:
  assumes inv: "cache_inv s c (x # y # ys)"
  shows "\<exists>s'. delete_cache_entry
            (s\<lparr>remaining_cache_size := remaining_cache_size s + size_at s x\<rparr>) x = Some s' \<and>
          cache_inv s' c (y # ys)"
proof -
  from inv obtain h ex ey where h: "objs s c = Some h" "last_access h = 0" "next' h = x"
    and x: "objs s x = Some ex" "prev' ex = c" "next' ex = y" "x \<noteq> 0"
    and y: "objs s y = Some ey" "prev' ey = x" "y \<noteq> 0" "dll s y (next' ey) ys"
    by (auto simp add: cache_inv_def split: option.splits)
  from inv have d: "c \<noteq> 0" "c \<noteq> x" "c \<noteq> y" "x \<noteq> y" "c \<notin> set ys" "x \<notin> set ys" "y \<notin> set ys"
    "distinct ys" "c < next_alloc s" "\<forall>z\<in>set (y # ys). z < next_alloc s"
    and sizes: "\<forall>z\<in>set (y # ys). 0 \<le> size_at s z"
    and urls: "\<forall>z\<in>set (y # ys). has_url s z"
    and acct: "sum_sizes s (x # y # ys) + remaining_cache_size s = MAX_CACHE_SIZE"
    by (auto simp add: cache_inv_def)
  define s' where "s' = s\<lparr>objs := (objs s)(y \<mapsto> ey\<lparr>prev' := c\<rparr>, c \<mapsto> h\<lparr>next' := y\<rparr>, x := None),
      remaining_cache_size := remaining_cache_size s + size_at s x\<rparr>"
  have del: "delete_cache_entry
      (s\<lparr>remaining_cache_size := remaining_cache_size s + size_at s x\<rparr>) x = Some s'"
    using h x y d
    by (simp add: delete_cache_entry_def assign_def free_cache_entry_def s'_def fun_upd_twist
        cong: eval_congs)
  have tail: "dll s' y (next' ey) ys"
    using y(4)
  proof (rule dll_frame)
    fix z assume z: "z \<in> set ys"
    with d have "z \<noteq> x" "z \<noteq> c" "z \<noteq> y" by auto
    moreover from dll_allocated [OF y(4) z] obtain ez where "objs s z = Some ez" ..
    ultimately show "\<exists>e e'. objs s z = Some e \<and> objs s' z = Some e' \<and>
        next' e' = next' e \<and> prev' e' = prev' e"
      by (simp add: s'_def)
  qed
  have same: "size_at s' z = size_at s z" if "z \<in> set (y # ys)" for z
    using that d y by (auto simp add: size_at_def s'_def)
  have same_url: "has_url s' z = has_url s z" if "z \<in> set (y # ys)" for z
    using that d y by (auto simp add: has_url_def s'_def)
  have "cache_inv s' c (y # ys)"
    unfolding cache_inv_def
    using d h y tail acct sizes urls same same_url sum_sizes_frame [of "y # ys" s' s, OF same]
    by (simp add: s'_def sum_sizes_def)
  with del show ?thesis
    by blast
qed


lemma evict_loop_ends:
  assumes "cache_inv s c (x # xs)" and "0 \<le> obj_size" and "obj_size \<le> MAX_OBJECT_SIZE"
    and "0 < now"
  shows "\<exists>s' y ys. evict_loop s c obj_size now x = Some (s', y) \<and> cache_inv s' c (y # ys) \<and>
           obj_size \<le> size_at s' y + remaining_cache_size s'"
  using assms(1)
proof (induction xs arbitrary: s x)
  case Nil
  then obtain ex where ex: "objs s x = Some ex"
    by (auto simp add: cache_inv_def split: option.splits)
  from Nil have "size_at s x + remaining_cache_size s = MAX_CACHE_SIZE"
    by (simp add: cache_inv_def sum_sizes_def)
  with assms(3) ex have stop: "\<not> response_size ex + remaining_cache_size s < obj_size"
    by (simp add: size_at_def)
  have "evict_loop s c obj_size now x = Some (s, x)"
    using ex stop by (subst evict_loop.simps) simp
  with Nil stop ex show ?case
    by (auto simp add: size_at_def)
next
  case (Cons y ys)
  then obtain ex where ex: "objs s x = Some ex"
    by (auto simp add: cache_inv_def split: option.splits)
  show ?case
  proof (cases "response_size ex + remaining_cache_size s < obj_size")
    case False
    have "evict_loop s c obj_size now x = Some (s, x)"
      using ex False by (subst evict_loop.simps) simp
    with Cons.prems False ex show ?thesis
      by (auto simp add: size_at_def)
  next
    case True
    from evict_first [OF Cons.prems] obtain s1 where
      s1: "delete_cache_entry
             (s\<lparr>remaining_cache_size := remaining_cache_size s + size_at s x\<rparr>) x = Some s1"
      and inv1: "cache_inv s1 c (y # ys)"
      by blast
    have lru: "find_LRU s1 c now = Some y"
      using inv1 assms(4) by (rule find_LRU_first)
    have "evict_loop s c obj_size now x = evict_loop s1 c obj_size now y"
      using ex True s1 lru
      by (subst evict_loop.simps) (simp add: size_at_def)
    with Cons.IH [OF inv1] show ?thesis
      by simp
  qed
qed

lemma overwrite_first:
  assumes inv: "cache_inv s c (y # ys)" and pos: "0 \<le> obj_size"
    and ey: "objs s y = Some ey"
  shows "cache_inv
           (s\<lparr>objs := (objs s)(y \<mapsto> ey\<lparr>url := Some u, response := Some r,
                 response_size := obj_size, last_access := now\<rparr>),
              remaining_cache_size := remaining_cache_size s + (response_size ey - obj_size)\<rparr>)
           c (y # ys)"
    (is "cache_inv ?s' c (y # ys)")
proof -
  from inv obtain h where h: "objs s c = Some h" "last_access h = 0" "next' h = y"
    and y: "prev' ey = c" "y \<noteq> 0" "dll s y (next' ey) ys"
    using ey by (auto simp add: cache_inv_def split: option.splits)
  from inv have d: "c \<noteq> 0" "c \<noteq> y" "c \<notin> set ys" "y \<notin> set ys"
    "distinct ys" "c < next_alloc s" "\<forall>z\<in>set (y # ys). z < next_alloc s"
    and sizes: "\<forall>z\<in>set ys. 0 \<le> size_at s z"
    and urls: "\<forall>z\<in>set ys. has_url s z"
    and acct: "sum_sizes s (y # ys) + remaining_cache_size s = MAX_CACHE_SIZE"
    by (auto simp add: cache_inv_def)
  have tail: "dll ?s' y (next' ey) ys"
    using y(3)
  proof (rule dll_frame)
    fix z assume z: "z \<in> set ys"
    with d have "z \<noteq> c" "z \<noteq> y" by auto
    moreover from dll_allocated [OF y(3) z] obtain ez where "objs s z = Some ez" ..
    ultimately show "\<exists>e e'. objs s z = Some e \<and> objs ?s' z = Some e' \<and>
        next' e' = next' e \<and> prev' e' = prev' e"
      by simp
  qed
  have same: "size_at ?s' z = size_at s z" if "z \<in> set ys" for z
    using that d by (auto simp add: size_at_def)
  have same_url: "has_url ?s' z = has_url s z" if "z \<in> set ys" for z
    using that d by (auto simp add: has_url_def)
  have new_url: "has_url ?s' y"
    by (simp add: has_url_def)
  show ?thesis
    unfolding cache_inv_def
    using d h y ey tail acct sizes urls pos same same_url new_url
      sum_sizes_frame [of ys ?s' s, OF same]
    by (simp add: sum_sizes_def size_at_def)
qed

lemma write_to_cache_evict:
  assumes inv: "cache_inv s c xs"
    and full: "remaining_cache_size s < obj_size"
    and pos: "0 \<le> obj_size" and cap: "obj_size \<le> MAX_OBJECT_SIZE" and now: "0 < now"
  shows "\<exists>s' xs'. write_to_cache s c c_url obj_size resp now = Some s' \<and> cache_inv s' c xs'"
proof -
  from inv full cap have "0 < sum_sizes s xs"
    by (simp add: cache_inv_def)
  then obtain x xs0 where xs: "xs = x # xs0"
    by (cases xs) (simp_all add: sum_sizes_def)
  have lru: "find_LRU s c now = Some x"
    using inv now unfolding xs by (rule find_LRU_first)
  from evict_loop_ends [OF inv [unfolded xs] pos cap now] obtain s1 y ys where
    loop: "evict_loop s c obj_size now x = Some (s1, y)" and inv1: "cache_inv s1 c (y # ys)"
    by blast
  from inv1 obtain ey where ey: "objs s1 y = Some ey"
    by (auto simp add: cache_inv_def split: option.splits)
  have "write_to_cache s c c_url obj_size resp now =
      Some (s1\<lparr>objs := (objs s1)(y \<mapsto> ey\<lparr>url := Some c_url,
                 response := Some (take (nat obj_size) resp),
                 response_size := obj_size, last_access := now\<rparr>),
              remaining_cache_size := remaining_cache_size s1 + (response_size ey - obj_size)\<rparr>)"
    using full lru loop ey
    by (simp add: write_to_cache_def assign_def Let_def cong: eval_congs)
  with overwrite_first [OF inv1 pos ey] show ?thesis
    by blast
qed

text \<open>
  A lookup keeps the invariant as well: it returns, it links and frees nothing, and the
  only fields of live entries it writes are time stamps.
\<close>

lemma stamp_self: "\<exists>t. e = e\<lparr>last_access := t\<rparr>" for e :: Cache
  by (rule exI [of _ "last_access e"]) simp

lemma stamps_only_step:
  assumes "objs s x = Some e"
    and "stamps_only A (s\<lparr>objs := (objs s)(x \<mapsto> e\<lparr>last_access := now\<rparr>)\<rparr>) s'"
  shows "stamps_only (insert x A) s s'"
proof -
  have "\<exists>t. objs s' a = Some (e'\<lparr>last_access := t\<rparr>)"
    if "a \<in> insert x A" "objs s a = Some e'" for a e'
  proof (cases "a \<in> A")
    case True
    show ?thesis
    proof (cases "a = x")
      case ax: True
      with assms(1) that have "e' = e" by simp
      from assms(2) True ax obtain t where
        "objs s' a = Some (e\<lparr>last_access := now\<rparr>\<lparr>last_access := t\<rparr>)"
        unfolding stamps_only_def by fastforce
      with \<open>e' = e\<close> show ?thesis by auto
    next
      case False
      with assms(2) True that show ?thesis
        unfolding stamps_only_def by simp
    qed
  next
    case False
    with that have "a = x" by simp
    with assms False that show ?thesis
      unfolding stamps_only_def by auto
  qed
  moreover have "objs s' a = objs s a" if "a \<notin> insert x A" for a
    using assms(2) that unfolding stamps_only_def by simp
  ultimately show ?thesis
    using assms(2) unfolding stamps_only_def by simp
qed

lemma search_cache_loop_stamps:
  assumes "dll s p a ys" and "\<forall>x\<in>set ys. has_url s x"
  shows "\<exists>s' r. search_cache_loop s curl now a = Some (s', r) \<and>
           stamps_only (set ys) s s'"
  using assms
proof (induction ys arbitrary: s p a)
  case Nil
  then show ?case
    by (subst search_cache_loop.simps) (simp add: stamps_only_def)
next
  case (Cons x xs)
  then obtain e u where e: "a \<noteq> 0" "a = x" "objs s x = Some e" "url e = Some u"
    "dll s x (next' e) xs"
    by (auto simp add: has_url_def split: option.splits)
  define s1 where "s1 = s\<lparr>objs := (objs s)(x \<mapsto> e\<lparr>last_access := now\<rparr>)\<rparr>"
  show ?case
  proof (cases "curl = u")
    case True
    have "search_cache_loop s curl now a =
            Some (s1\<lparr>readers_count := readers_count s - 1\<rparr>, x)"
      using e True by (subst search_cache_loop.simps) (simp add: assign_def s1_def)
    moreover have "stamps_only (set (x # xs)) s (s1\<lparr>readers_count := readers_count s - 1\<rparr>)"
      using e(3) unfolding stamps_only_def s1_def by (auto intro: stamp_self)
    ultimately show ?thesis
      by simp
  next
    case False
    have step: "search_cache_loop s curl now a = search_cache_loop s1 curl now (next' e)"
      using e False by (subst search_cache_loop.simps) (simp add: assign_def s1_def)
    have d1: "dll s1 x (next' e) xs"
      using e(5)
    proof (rule dll_frame)
      fix z assume "z \<in> set xs"
      from dll_allocated [OF e(5) this] obtain ez where "objs s z = Some ez" ..
      then show "\<exists>e e'. objs s z = Some e \<and> objs s1 z = Some e' \<and>
          next' e' = next' e \<and> prev' e' = prev' e"
        using e(3) by (cases "z = x") (simp_all add: s1_def)
    qed
    have u1: "\<forall>z\<in>set xs. has_url s1 z"
      using Cons.prems(2) e by (auto simp add: has_url_def s1_def)
    from Cons.IH [OF d1 u1] obtain s' r where
      r: "search_cache_loop s1 curl now (next' e) = Some (s', r)"
      and st: "stamps_only (set xs) s1 s'"
      by blast
    from st have "stamps_only (insert x (set xs)) s s'"
      unfolding s1_def by (rule stamps_only_step [OF e(3)])
    with step r show ?thesis
      by auto
  qed
qed

lemma stamps_only_inv:
  assumes inv: "cache_inv s c xs" and st: "stamps_only (set xs) s s'"
  shows "cache_inv s' c xs"
proof -
  from inv obtain h where h: "objs s c = Some h" "last_access h = 0" "dll s c (next' h) xs"
    and c: "c \<notin> set xs"
    by (auto simp add: cache_inv_def split: option.splits)
  from st c h have h': "objs s' c = Some h"
    by (simp add: stamps_only_def)
  have obj: "\<exists>e t. objs s x = Some e \<and> objs s' x = Some (e\<lparr>last_access := t\<rparr>)"
    if "x \<in> set xs" for x
    using dll_allocated [OF h(3) that] st that unfolding stamps_only_def by fastforce
  have d: "dll s' c (next' h) xs"
    using h(3)
  proof (rule dll_frame)
    fix x assume "x \<in> set xs"
    from obj [OF this] show "\<exists>e e'. objs s x = Some e \<and> objs s' x = Some e' \<and>
        next' e' = next' e \<and> prev' e' = prev' e"
      by auto
  qed
  have same: "size_at s' x = size_at s x" if "x \<in> set xs" for x
    using obj [OF that] by (auto simp add: size_at_def)
  have same_url: "has_url s' x = has_url s x" if "x \<in> set xs" for x
    using obj [OF that] by (auto simp add: has_url_def)
  from st have "next_alloc s' = next_alloc s" "remaining_cache_size s' = remaining_cache_size s"
    by (simp_all add: stamps_only_def)
  with inv h' h d same same_url sum_sizes_frame [of xs s' s, OF same] show ?thesis
    by (simp add: cache_inv_def)
qed

lemma search_cache_keeps_inv:
  assumes inv: "cache_inv s c xs"
  shows "\<exists>s' r. search_cache s c curl now = Some (s', r) \<and> cache_inv s' c xs"
proof -
  define s0 where "s0 = s\<lparr>objs := (objs s)(next_alloc s \<mapsto> blank),
    next_alloc := next_alloc s + 1, readers_count := readers_count s + 1\<rparr>"
  from inv obtain h where h: "objs s c = Some h" "last_access h = 0" "dll s c (next' h) xs"
    and c: "c \<noteq> next_alloc s" "next_alloc s \<notin> set xs"
    by (auto simp add: cache_inv_def split: option.splits)
  have same_obj: "objs s0 x = objs s x" if "x \<in> set xs" for x
    using that c by (auto simp add: s0_def)
  have d0: "dll s0 c (next' h) xs"
    using h(3)
  proof (rule dll_frame)
    fix x assume x: "x \<in> set xs"
    from dll_allocated [OF h(3) x] same_obj [OF x]
    show "\<exists>e e'. objs s x = Some e \<and> objs s0 x = Some e' \<and>
        next' e' = next' e \<and> prev' e' = prev' e"
      by auto
  qed
  have same: "size_at s0 x = size_at s x" if "x \<in> set xs" for x
    using same_obj [OF that] by (simp add: size_at_def)
  have same_url: "has_url s0 x = has_url s x" if "x \<in> set xs" for x
    using same_obj [OF that] by (simp add: has_url_def)
  have inv0: "cache_inv s0 c xs"
    using inv h c d0 same same_url sum_sizes_frame [of xs s0 s, OF same]
    by (auto simp add: cache_inv_def s0_def)
  then have u0: "\<forall>x\<in>set xs. has_url s0 x"
    by (simp add: cache_inv_def)
  from search_cache_loop_stamps [OF d0 u0, of curl now] obtain s' r where
    loop: "search_cache_loop s0 curl now (next' h) = Some (s', r)"
    and st: "stamps_only (set xs) s0 s'"
    by blast
  have "search_cache s c curl now = Some (s', r)"
    using h c loop by (simp add: search_cache_def Malloc_def s0_def Let_def)
  moreover have "cache_inv s' c xs"
    using inv0 st by (rule stamps_only_inv)
  ultimately show ?thesis
    by blast
qed

lemma cache_inv_accounting:
  "cache_inv s c xs \<Longrightarrow> sum_sizes s xs + remaining_cache_size s = MAX_CACHE_SIZE"
  by (simp add: cache_inv_def)

lemma empty_cache_inv: "cache_inv empty_cache 1 []"
  by (simp add: cache_inv_def cache_eval sum_sizes_def Let_def cong: eval_congs)

text \<open>
  Claim C6.  The invariant of the cache, and with it the accounting equation
  \<open>sum_sizes s xs + remaining_cache_size s = MAX_CACHE_SIZE\<close>, holds in the empty
  cache, and every \<open>write_to_cache\<close> of an object of \<open>0 \<le> obj_size \<le> 102400\<close>
  bytes returns and keeps it, on the branch that adds an entry and on the branch that
  evicts: the loop deletes entries and the last victim is overwritten in place.  The clock
  is past the epoch (\<open>0 < now\<close>).  Lookups in between keep the invariant too
  (lemma \<open>search_cache_keeps_inv\<close>).
\<close>

theorem write_to_cache_accounting:
  "cache_inv empty_cache 1 [] \<and>
   sum_sizes empty_cache [] + remaining_cache_size empty_cache = MAX_CACHE_SIZE \<and>
   (cache_inv s c xs \<and> 0 \<le> obj_size \<and> obj_size \<le> MAX_OBJECT_SIZE \<and> 0 < now \<longrightarrow>
      (\<exists>s' xs'. write_to_cache s c c_url obj_size resp now = Some s' \<and> cache_inv s' c xs' \<and>
         sum_sizes s' xs' + remaining_cache_size s' = MAX_CACHE_SIZE))"
proof (intro conjI impI)
  show "cache_inv empty_cache 1 []"
    by (rule empty_cache_inv)
  then show "sum_sizes empty_cache [] + remaining_cache_size empty_cache = MAX_CACHE_SIZE"
    by (rule cache_inv_accounting)
next
  assume a: "cache_inv s c xs \<and> 0 \<le> obj_size \<and> obj_size \<le> MAX_OBJECT_SIZE \<and> 0 < now"
  have "\<exists>s' xs'. write_to_cache s c c_url obj_size resp now = Some s' \<and> cache_inv s' c xs'"
  proof (cases "obj_size \<le> remaining_cache_size s")
    case True
    with a write_to_cache_room [of s c xs obj_size c_url resp now] show ?thesis
      by blast
  next
    case False
    then have "remaining_cache_size s < obj_size" by simp
    with a write_to_cache_evict [of s c xs obj_size now c_url resp] show ?thesis
      by blast
  qed
  then show "\<exists>s' xs'. write_to_cache s c c_url obj_size resp now = Some s' \<and>
      cache_inv s' c xs' \<and> sum_sizes s' xs' + remaining_cache_size s' = MAX_CACHE_SIZE"
    using cache_inv_accounting by blast
qed

theorem write_to_cache_accounting_witness:
  "cache_inv empty_cache 1 [] \<and> (0::int) \<le> 3 \<and> (3::int) \<le> MAX_OBJECT_SIZE \<and> (0::int) < 10 \<and>
   (\<exists>s' xs'. write_to_cache empty_cache 1 ''a'' 3 [1, 2, 3] 10 = Some s' \<and>
      cache_inv s' 1 xs' \<and> sum_sizes s' xs' + remaining_cache_size s' = MAX_CACHE_SIZE)"
  using write_to_cache_accounting [of empty_cache 1 "[]" 3 10 "''a''" "[1, 2, 3]"]
  by simp

subsection \<open>The victim of an eviction\<close>

text \<open>
  Claim C3 fails on the code.  With entry \<open>''a''\<close> inserted at time 10 and entry
  \<open>''b''\<close> at time 20, the least recently used entry is \<open>''a''\<close> at address 2.
  \<open>find_LRU\<close> at time 30 returns address 3, the entry \<open>''b''\<close> with the larger
  time stamp: its test compares the time stamp of the entry held so far, not that of the
  entry under the cursor, so it settles on the first entry of the list
  (lemma \<open>find_LRU_first\<close>).
\<close>

theorem find_LRU_returns_newest:
  "do {
     c1 \<leftarrow> write_to_cache empty_cache 1 ''a'' 3 [1, 2, 3] 10;
     c2 \<leftarrow> write_to_cache c1 1 ''b'' 3 [4, 5, 6] 20;
     lru \<leftarrow> find_LRU c2 1 30;
     a \<leftarrow> objs c2 2;
     b \<leftarrow> objs c2 3;
     Some (lru, url a, last_access a, url b, last_access b)
   } = Some (3, Some ''a'', 10, Some ''b'', 20)"
  by (simp add: cache_eval find_LRU_loop.simps Let_def cong: eval_congs)

subsection \<open>Lookup\<close>

text \<open>
  Claim C4 fails on the code.  In the cache with \<open>''b''\<close> (time 20, address 3) before
  \<open>''a''\<close> (time 10, address 2), the lookup of \<open>''a''\<close> at time 30 hits at address
  2, and on its way it has set the time stamp of the entry \<open>''b''\<close>, which did not
  match, from 20 to 30.
\<close>

theorem search_cache_touches_others:
  "do {
     c1 \<leftarrow> write_to_cache empty_cache 1 ''a'' 3 [1, 2, 3] 10;
     c2 \<leftarrow> write_to_cache c1 1 ''b'' 3 [4, 5, 6] 20;
     (c3, hit) \<leftarrow> search_cache c2 1 ''a'' 30;
     b \<leftarrow> objs c2 3;
     b' \<leftarrow> objs c3 3;
     Some (hit, url b, last_access b, url b', last_access b')
   } = Some (2, Some ''b'', 20, Some ''b'', 30)"
  by (simp add: cache_eval search_cache_loop.simps Let_def cong: eval_congs)

text \<open>
  Claim C5 fails on the code.  A lookup in the empty cache misses (it returns the null
  pointer), and it leaves behind a \<open>struct Cache\<close> at address 2 that was not allocated
  before, that no pointer refers to and that nothing frees.
\<close>

theorem search_cache_leaks_entry:
  "objs empty_cache 2 = None \<and>
   do {
     (s, hit) \<leftarrow> search_cache empty_cache 1 ''a'' 30;
     Some (hit, objs s 2)
   } = Some (0, Some blank)"
  by (simp add: cache_eval search_cache_loop.simps Let_def cong: eval_congs)

subsection \<open>Caching a streamed response\<close>

text \<open>
  While the blocks read so far leave room in the buffer, the loop copies each block behind
  the last and counts it.
\<close>

lemma stream_response_fits:
  assumes "\<forall>c\<in>set chunks. c \<noteq> []"
    and "int (length (concat chunks)) < left"
    and "0 \<le> tot"
    and "nat tot + length (concat chunks) \<le> length buf"
  shows "stream_response chunks left tot buf =
           (left - int (length (concat chunks)), tot + int (length (concat chunks)),
            take (nat tot) buf @ concat chunks @
              drop (nat tot + length (concat chunks)) buf)"
  using assms
proof (induction chunks arbitrary: left tot buf)
  case Nil
  then show ?case by simp
next
  case (Cons c cs)
  let ?n = "int (length c)"
  let ?buf = "take (nat tot) buf @ c @ drop (nat tot + nat ?n) buf"
  have pos: "0 < ?n" using Cons.prems(1) by simp
  have fit: "0 < left - ?n" using Cons.prems(2) by simp
  have step: "stream_response (c # cs) left tot buf =
                stream_response cs (left - ?n) (tot + ?n) ?buf"
    using pos fit by (simp add: Let_def)
  have len: "length ?buf = length buf"
    using Cons.prems(3,4) by simp
  have ih: "stream_response cs (left - ?n) (tot + ?n) ?buf =
      (left - ?n - int (length (concat cs)), tot + ?n + int (length (concat cs)),
       take (nat (tot + ?n)) ?buf @ concat cs @
         drop (nat (tot + ?n) + length (concat cs)) ?buf)"
    using Cons.prems by (intro Cons.IH) (simp_all add: len)
  have t: "take (nat (tot + ?n)) ?buf = take (nat tot) buf @ c"
    using Cons.prems(3,4) by (simp add: nat_add_distrib)
  have d: "drop (nat (tot + ?n) + length (concat cs)) ?buf =
             drop (nat tot + length (concat (c # cs))) buf"
    using Cons.prems(3,4) by (simp add: nat_add_distrib add.commute add.left_commute)
  show ?case
    unfolding step ih t d by simp
qed

lemma stream_response_append:
  assumes "\<forall>c\<in>set xs. c \<noteq> []"
  shows "stream_response (xs @ ys) left tot buf =
           (case stream_response xs left tot buf of
              (left', tot', buf') \<Rightarrow> stream_response ys left' tot' buf')"
  using assms
  by (induction xs arbitrary: left tot buf) (simp_all add: Let_def split: prod.splits)


text \<open>
  A response that fills the buffer exactly: every block but the last is copied, the last is
  not, and \<open>response_buf_left\<close> ends at 0.
\<close>

lemma stream_response_exact:
  assumes ne: "\<forall>c\<in>set xs. c \<noteq> []"
    and d: "d \<noteq> []"
    and left: "left = int (length (concat xs)) + int (length d)"
    and tot: "0 \<le> tot"
    and buf: "nat tot + length (concat xs) \<le> length buf"
  shows "stream_response (xs @ [d]) left tot buf =
           (0, tot + int (length (concat xs)),
            take (nat tot) buf @ concat xs @ drop (nat tot + length (concat xs)) buf)"
proof -
  have lt: "int (length (concat xs)) < left"
    using d left by simp
  have first: "stream_response xs left tot buf =
      (int (length d), tot + int (length (concat xs)),
       take (nat tot) buf @ concat xs @ drop (nat tot + length (concat xs)) buf)"
    using stream_response_fits [OF ne lt tot buf] left by simp
  have last: "stream_response [d] (int (length d)) t b = (0, t, b)" for t b
    using d by (simp add: Let_def)
  show ?thesis
    unfolding stream_response_append [OF ne] first by (simp only: prod.case last)
qed

lemma stream_full_response:
  "stream_response full_response 102400 0 (replicate 102400 0) =
     (0, 98304, concat (butlast full_response) @ replicate 4096 0)"
proof -
  let ?c = "replicate 8192 (1::byte)"
  let ?xs = "[?c, ?c, ?c, ?c, ?c, ?c, ?c, ?c, ?c, ?c, ?c, ?c]"
  have full: "full_response = ?xs @ [replicate 4096 2]"
    by (simp add: full_response_def Let_def)
  have bl: "butlast full_response = ?xs"
    by (simp add: full_response_def Let_def)
  have len: "length (concat ?xs) = 98304"
    by simp
  have ne: "\<forall>c\<in>set ?xs. c \<noteq> []"
    by simp
  have "stream_response (?xs @ [replicate 4096 2]) 102400 0 (replicate 102400 0) =
          (0, 0 + int (length (concat ?xs)),
           take (nat 0) (replicate 102400 0) @ concat ?xs @
             drop (nat 0 + length (concat ?xs)) (replicate 102400 0))"
    by (rule stream_response_exact [OF ne]) (simp_all only: len, simp_all)
  then show ?thesis
    unfolding full [symmetric] bl len by simp
qed


text \<open>
  Claim C9 fails on the code.  A response of exactly 102400 bytes, read in twelve blocks of
  8192 bytes and one of 4096, is inserted into the cache (\<open>response_buf_left\<close> ends at
  0), but the entry holds only the first 98304 bytes: the last block was sent to the client
  and never copied into the buffer.
\<close>

theorem full_response_cached_truncated:
  "do {
     s \<leftarrow> handle_response empty_cache 1 ''u'' full_response 10;
     e \<leftarrow> objs s 2;
     r \<leftarrow> response e;
     Some (length (concat full_response), response_size e, r = concat (butlast full_response))
   } = Some (102400, 98304, True)"
proof -
  have len: "length (concat full_response) = 102400"
    "length (concat (butlast full_response)) = 98304"
    by (simp_all add: full_response_def Let_def)
  have h: "handle_response empty_cache 1 ''u'' full_response 10 =
             write_to_cache empty_cache 1 ''u'' 98304
               (concat (butlast full_response) @ replicate 4096 0) 10"
    by (simp add: handle_response_def stream_full_response)
  show ?thesis
    unfolding h
    by (simp add: cache_eval len Let_def cong: eval_congs)
qed

end
